theory Spec2Isabelle
  imports Complex_Main "HOL-Library.Multiset"
begin

section \<open>Data model of package group\<close>

text \<open>
  Timestamps are natural numbers; \<open>0\<close> is the zero \<open>time.Time\<close> of a struct that has not
  been stored yet. Go's \<open>int\<close> fields are modelled by \<open>int\<close>: the only arithmetic on them is
  \<open>CurrentCount++\<close>, executed under the guard \<open>CurrentCount < Capacity\<close>, so the 64-bit
  range is never left.
\<close>

type_synonym time = nat

abbreviation JoinTypeOpen :: string where "JoinTypeOpen \<equiv> ''OPEN''"
abbreviation JoinTypeApplication :: string where "JoinTypeApplication \<equiv> ''APPLICATION''"
abbreviation StatusOpen :: string where "StatusOpen \<equiv> ''OPEN''"
abbreviation StatusClosed :: string where "StatusClosed \<equiv> ''CLOSED''"
abbreviation StatusCompleted :: string where "StatusCompleted \<equiv> ''COMPLETED''"
abbreviation RoleLeader :: string where "RoleLeader \<equiv> ''LEADER''"
abbreviation RoleMember :: string where "RoleMember \<equiv> ''MEMBER''"
abbreviation ApplicationStatusPending :: string where "ApplicationStatusPending \<equiv> ''PENDING''"
abbreviation ApplicationStatusApproved :: string where "ApplicationStatusApproved \<equiv> ''APPROVED''"
abbreviation ApplicationStatusRejected :: string where "ApplicationStatusRejected \<equiv> ''REJECTED''"

record Application =
  app_UserID :: string
  Pitch :: string
  app_Status :: string
  AppliedAt :: time
  DecidedAt :: "time option"

record Group =
  ID :: string
  OwnerID :: string
  Title :: string
  Description :: string
  Proposal :: string
  Tags :: "string list"
  Capacity :: int
  CurrentCount :: int
  JoinType :: string
  Status :: string
  Applications :: "Application list"
  CreatedAt :: time
  UpdatedAt :: time

record GroupMember =
  GroupID :: string
  UserID :: string
  Role :: string
  JoinedAt :: time

record CreateGroupRequest =
  req_Title :: string
  req_Description :: string
  req_Proposal :: string
  req_Tags :: "string list"
  req_Capacity :: int
  req_JoinType :: string

record DiscoverGroupsRequest =
  flt_Tags :: "string list"
  flt_SkillLevel :: string
  flt_JoinType :: string
  flt_Limit :: int

record UserProfile =
  up_UserID :: string
  up_Tags :: "string list"
  up_SkillLevel :: string
  up_Availability :: "string list"
  up_Intent :: string

record GroupMatch =
  gm_Group :: Group
  SimilarityScore :: rat

text \<open>
  The struct tag of \<open>CreateGroupRequest.Capacity\<close> is \<open>binding:"omitempty,min=2,max=10"\<close>:
  a request that passes binding leaves the capacity unset (zero) or gives a value from 2 to 10.
  The tag of \<open>DiscoverGroupsRequest.Limit\<close> is \<open>binding:"omitempty,min=1,max=100"\<close>.
\<close>

definition binding_Capacity :: "CreateGroupRequest \<Rightarrow> bool" where
  "binding_Capacity req =
     (req_Capacity req = 0 \<or> (2 \<le> req_Capacity req \<and> req_Capacity req \<le> 10))"

definition binding_Limit :: "DiscoverGroupsRequest \<Rightarrow> bool" where
  "binding_Limit f = (flt_Limit f = 0 \<or> (1 \<le> flt_Limit f \<and> flt_Limit f \<le> 100))"

section \<open>Errors of package group\<close>

text \<open>
  \<open>Wrapped msg e\<close> is \<open>fmt.Errorf("msg: %w", e)\<close>; \<open>ErrStorage\<close> is an error raised by
  the database driver (here: a violated constraint of the schema).
\<close>

datatype error =
    ErrGroupNotFound
  | ErrGroupFull
  | ErrGroupNotOpen
  | ErrInvalidJoinType
  | ErrAlreadyMember
  | ErrNotGroupOwner
  | ErrApplicationExists
  | ErrApplicationNotFound
  | ErrCannotApplyToOpenGroup
  | ErrCannotJoinApplicationGroup
  | ErrStorage string
  | Wrapped string error

section \<open>Persistence: the repository over the schema of 000001_groups.up.sql\<close>

text \<open>
  The two tables \<open>groups\<close> and \<open>group_members\<close> are lists of rows in insertion order.
  Of the schema, the model keeps the primary keys, the foreign key from
  \<open>group_members.group_id\<close> to \<open>groups.id\<close> and the two CHECK constraints of \<open>groups\<close>.
  User ids are those of existing users (the table \<open>users\<close> belongs to another service), and
  column syntax (UUID, VARCHAR lengths) is not modelled. Both clocks, \<open>time.Now()\<close> and the
  database's \<open>NOW()\<close>, read the instant \<open>now\<close> passed to an operation.
\<close>

record database =
  groups :: "Group list"
  group_members :: "GroupMember list"

definition chk_capacity :: "Group \<Rightarrow> bool" where
  "chk_capacity g = (Capacity g > 0 \<and> Capacity g \<le> 10)"

definition chk_count :: "Group \<Rightarrow> bool" where
  "chk_count g = (CurrentCount g \<ge> 0 \<and> CurrentCount g \<le> Capacity g)"

definition group_exists :: "database \<Rightarrow> string \<Rightarrow> bool" where
  "group_exists d gid = list_ex (\<lambda>r. ID r = gid) (groups d)"

definition repo_CreateGroup :: "database \<Rightarrow> Group \<Rightarrow> time \<Rightarrow> (error + Group) \<times> database" where
  "repo_CreateGroup d g now =
     (if group_exists d (ID g) \<or> \<not> chk_capacity g \<or> \<not> chk_count g
      then (Inl (Wrapped ''insert group'' (ErrStorage ''constraint violation'')), d)
      else (let g' = g\<lparr>CreatedAt := now, UpdatedAt := now\<rparr>
            in (Inr g', d\<lparr>groups := groups d @ [g']\<rparr>)))"

definition GetGroupWithLock :: "database \<Rightarrow> string \<Rightarrow> error + Group" where
  "GetGroupWithLock d gid =
     (case find (\<lambda>r. ID r = gid) (groups d) of
        None \<Rightarrow> Inl ErrGroupNotFound
      | Some r \<Rightarrow> Inr r)"

text \<open>
  \<open>UPDATE groups SET title, description, proposal, tags, capacity, current_count, join_type,
  status, applications WHERE id = $1\<close>: the other columns of the row stay.
\<close>

definition update_row :: "Group \<Rightarrow> Group \<Rightarrow> Group" where
  "update_row g r =
     (if ID r = ID g
      then r\<lparr>Title := Title g, Description := Description g, Proposal := Proposal g,
             Tags := Tags g, Capacity := Capacity g, CurrentCount := CurrentCount g,
             JoinType := JoinType g, Status := Status g, Applications := Applications g\<rparr>
      else r)"

definition UpdateGroup :: "database \<Rightarrow> Group \<Rightarrow> (error + unit) \<times> database" where
  "UpdateGroup d g =
     (if \<not> group_exists d (ID g) then (Inl ErrGroupNotFound, d)
      else if \<not> chk_capacity g \<or> \<not> chk_count g
      then (Inl (Wrapped ''update group'' (ErrStorage ''constraint violation'')), d)
      else (Inr (), d\<lparr>groups := map (update_row g) (groups d)\<rparr>))"

definition IsMember :: "database \<Rightarrow> string \<Rightarrow> string \<Rightarrow> bool" where
  "IsMember d gid uid = list_ex (\<lambda>m. GroupID m = gid \<and> UserID m = uid) (group_members d)"

definition AddMember :: "database \<Rightarrow> GroupMember \<Rightarrow> time \<Rightarrow> (error + unit) \<times> database" where
  "AddMember d m now =
     (if IsMember d (GroupID m) (UserID m) \<or> \<not> group_exists d (GroupID m)
      then (Inl (Wrapped ''insert member'' (ErrStorage ''constraint violation'')), d)
      else (Inr (), d\<lparr>group_members := group_members d @ [m\<lparr>JoinedAt := now\<rparr>]\<rparr>))"

text \<open>
  Modelled from the spec: \<open>WithTransaction\<close> of package \<open>pkg/db\<close>, which is not among the
  sources. The spec: "scoped transaction acquisition, guarantees rollback on error or
  panic/cancellation and commit only on clean return". The unit of work receives the database
  and returns its result with the database as its writes left it; an error restores the
  database of the start.
\<close>

definition WithTransaction ::
  "database \<Rightarrow> (database \<Rightarrow> (error + 'a) \<times> database) \<Rightarrow> (error + 'a) \<times> database" where
  "WithTransaction d fn =
     (case fn d of
        (Inl e, _) \<Rightarrow> (Inl e, d)
      | (Inr x, d') \<Rightarrow> (Inr x, d'))"

section \<open>Group service (service.go)\<close>

text \<open>
  Modelled from the spec: the cache of package \<open>pkg/cache\<close>, which is not among the sources
  ("Cache Port (consumed): Delete(key) where key is deterministically derived from group
  ID"). The service only ever calls \<open>Del\<close>; the model records the keys of these calls, oldest
  first.
\<close>

record world =
  db :: database
  cache_dels :: "string list"

definition cache_key :: "string \<Rightarrow> string" where
  "cache_key gid = ''group:'' @ gid"

definition CreateGroup_tx ::
  "Group \<Rightarrow> string \<Rightarrow> time \<Rightarrow> database \<Rightarrow> (error + Group) \<times> database" where
  "CreateGroup_tx grp ownerID now d =
     (case repo_CreateGroup d grp now of
        (Inl e, d1) \<Rightarrow> (Inl (Wrapped ''create group'' e), d1)
      | (Inr grp1, d1) \<Rightarrow>
          (case AddMember d1 \<lparr>GroupID = ID grp1, UserID = ownerID, Role = RoleLeader,
                              JoinedAt = 0\<rparr> now of
             (Inl e, d2) \<Rightarrow> (Inl (Wrapped ''add owner as member'' e), d2)
           | (Inr _, d2) \<Rightarrow> (Inr grp1, d2)))"

text \<open>\<open>newID\<close> is the value of \<open>uuid.New().String()\<close>.\<close>

definition CreateGroup ::
  "world \<Rightarrow> string \<Rightarrow> CreateGroupRequest \<Rightarrow> string \<Rightarrow> time \<Rightarrow> (error + Group) \<times> world" where
  "CreateGroup w ownerID req newID now =
     (if req_JoinType req \<noteq> JoinTypeOpen \<and> req_JoinType req \<noteq> JoinTypeApplication
      then (Inl ErrInvalidJoinType, w)
      else
        (let capacity = (if req_Capacity req = 0 then 5 else req_Capacity req);
             grp = \<lparr>ID = newID, OwnerID = ownerID, Title = req_Title req,
                      Description = req_Description req, Proposal = req_Proposal req,
                      Tags = req_Tags req, Capacity = capacity, CurrentCount = 1,
                      JoinType = req_JoinType req, Status = StatusOpen, Applications = [],
                      CreatedAt = 0, UpdatedAt = 0\<rparr>
         in (case WithTransaction (db w) (CreateGroup_tx grp ownerID now) of
               (Inl e, d) \<Rightarrow> (Inl e, w\<lparr>db := d\<rparr>)
             | (Inr g, d) \<Rightarrow> (Inr g, w\<lparr>db := d\<rparr>))))"

text \<open>
  The unit of work of \<open>JoinGroup\<close>. \<open>IsMember\<close> reads through the connection, not the
  transaction; no write precedes it, so it sees the database of the start.
\<close>

definition JoinGroup_tx :: "string \<Rightarrow> string \<Rightarrow> time \<Rightarrow> database \<Rightarrow> (error + unit) \<times> database" where
  "JoinGroup_tx groupID userID now d =
     (case GetGroupWithLock d groupID of
        Inl e \<Rightarrow> (Inl e, d)
      | Inr grp \<Rightarrow>
          if Status grp \<noteq> StatusOpen then (Inl ErrGroupNotOpen, d)
          else if JoinType grp \<noteq> JoinTypeOpen then (Inl ErrCannotJoinApplicationGroup, d)
          else if IsMember d groupID userID then (Inl ErrAlreadyMember, d)
          else if CurrentCount grp \<ge> Capacity grp then (Inl ErrGroupFull, d)
          else
            (case AddMember d \<lparr>GroupID = groupID, UserID = userID, Role = RoleMember,
                               JoinedAt = 0\<rparr> now of
               (Inl e, d1) \<Rightarrow> (Inl (Wrapped ''add member'' e), d1)
             | (Inr _, d1) \<Rightarrow>
                 (let grp1 = grp\<lparr>CurrentCount := CurrentCount grp + 1\<rparr>
                  in (case UpdateGroup d1 grp1 of
                        (Inl e, d2) \<Rightarrow> (Inl (Wrapped ''update group count'' e), d2)
                      | (Inr _, d2) \<Rightarrow>
                          if CurrentCount grp1 \<ge> Capacity grp1
                          then (case UpdateGroup d2 (grp1\<lparr>Status := StatusClosed\<rparr>) of
                                  (Inl e, d3) \<Rightarrow> (Inl (Wrapped ''close full group'' e), d3)
                                | (Inr _, d3) \<Rightarrow> (Inr (), d3))
                          else (Inr (), d2)))))"

definition JoinGroup :: "world \<Rightarrow> string \<Rightarrow> string \<Rightarrow> time \<Rightarrow> (error + unit) \<times> world" where
  "JoinGroup w groupID userID now =
     (case WithTransaction (db w) (JoinGroup_tx groupID userID now) of
        (Inl e, d) \<Rightarrow> (Inl e, w\<lparr>db := d\<rparr>)
      | (Inr _, d) \<Rightarrow> (Inr (), w\<lparr>db := d, cache_dels := cache_dels w @ [cache_key groupID]\<rparr>))"

definition ApplyToGroup_tx ::
  "string \<Rightarrow> string \<Rightarrow> string \<Rightarrow> time \<Rightarrow> database \<Rightarrow> (error + unit) \<times> database" where
  "ApplyToGroup_tx groupID userID pitch now d =
     (case GetGroupWithLock d groupID of
        Inl e \<Rightarrow> (Inl e, d)
      | Inr grp \<Rightarrow>
          if Status grp \<noteq> StatusOpen then (Inl ErrGroupNotOpen, d)
          else if JoinType grp \<noteq> JoinTypeApplication then (Inl ErrCannotApplyToOpenGroup, d)
          else if IsMember d groupID userID then (Inl ErrAlreadyMember, d)
          else if list_ex (\<lambda>app. app_UserID app = userID \<and> app_Status app = ApplicationStatusPending)
                    (Applications grp)
          then (Inl ErrApplicationExists, d)
          else if CurrentCount grp \<ge> Capacity grp then (Inl ErrGroupFull, d)
          else
            (let application = \<lparr>app_UserID = userID, Pitch = pitch,
                                app_Status = ApplicationStatusPending, AppliedAt = now,
                                DecidedAt = None\<rparr>;
                 grp1 = grp\<lparr>Applications := Applications grp @ [application]\<rparr>
             in (case UpdateGroup d grp1 of
                   (Inl e, d1) \<Rightarrow> (Inl (Wrapped ''update group applications'' e), d1)
                 | (Inr _, d1) \<Rightarrow> (Inr (), d1))))"

definition ApplyToGroup ::
  "world \<Rightarrow> string \<Rightarrow> string \<Rightarrow> string \<Rightarrow> time \<Rightarrow> (error + unit) \<times> world" where
  "ApplyToGroup w groupID userID pitch now =
     (case WithTransaction (db w) (ApplyToGroup_tx groupID userID pitch now) of
        (Inl e, d) \<Rightarrow> (Inl e, w\<lparr>db := d\<rparr>)
      | (Inr _, d) \<Rightarrow> (Inr (), w\<lparr>db := d\<rparr>))"

text \<open>
  The search loop of \<open>ApproveApplication\<close>: the index of the first PENDING application of
  the applicant (\<open>None\<close> is the source's \<open>applicationIndex == -1\<close>).
\<close>

fun findPending :: "string \<Rightarrow> Application list \<Rightarrow> nat option" where
  "findPending u [] = None"
| "findPending u (app # apps) =
     (if app_UserID app = u \<and> app_Status app = ApplicationStatusPending then Some 0
      else map_option Suc (findPending u apps))"

definition decide :: "string \<Rightarrow> time \<Rightarrow> nat \<Rightarrow> Application list \<Rightarrow> Application list" where
  "decide st now i apps = apps[i := (apps ! i)\<lparr>app_Status := st, DecidedAt := Some now\<rparr>]"

definition ApproveApplication_tx ::
  "string \<Rightarrow> string \<Rightarrow> string \<Rightarrow> bool \<Rightarrow> time \<Rightarrow> database \<Rightarrow> (error + unit) \<times> database" where
  "ApproveApplication_tx groupID applicantUserID ownerID approve now d =
     (case GetGroupWithLock d groupID of
        Inl e \<Rightarrow> (Inl e, d)
      | Inr grp \<Rightarrow>
          if OwnerID grp \<noteq> ownerID then (Inl ErrNotGroupOwner, d)
          else
            (case findPending applicantUserID (Applications grp) of
               None \<Rightarrow> (Inl ErrApplicationNotFound, d)
             | Some applicationIndex \<Rightarrow>
                 if approve
                 then
                   (let grp1 = grp\<lparr>Applications :=
                          decide ApplicationStatusApproved now applicationIndex (Applications grp)\<rparr>
                    in if CurrentCount grp1 \<ge> Capacity grp1 then (Inl ErrGroupFull, d)
                       else
                         (case AddMember d \<lparr>GroupID = groupID, UserID = applicantUserID,
                                            Role = RoleMember, JoinedAt = 0\<rparr> now of
                            (Inl e, d1) \<Rightarrow> (Inl (Wrapped ''add approved member'' e), d1)
                          | (Inr _, d1) \<Rightarrow>
                              (let grp2 = grp1\<lparr>CurrentCount := CurrentCount grp1 + 1\<rparr>;
                                   grp3 = (if CurrentCount grp2 \<ge> Capacity grp2
                                             then grp2\<lparr>Status := StatusClosed\<rparr> else grp2)
                               in (case UpdateGroup d1 grp3 of
                                     (Inl e, d2) \<Rightarrow> (Inl (Wrapped ''update group'' e), d2)
                                   | (Inr _, d2) \<Rightarrow> (Inr (), d2)))))
                 else
                   (let grp1 = grp\<lparr>Applications :=
                          decide ApplicationStatusRejected now applicationIndex (Applications grp)\<rparr>
                    in (case UpdateGroup d grp1 of
                          (Inl e, d1) \<Rightarrow> (Inl (Wrapped ''update group'' e), d1)
                        | (Inr _, d1) \<Rightarrow> (Inr (), d1)))))"

definition ApproveApplication ::
  "world \<Rightarrow> string \<Rightarrow> string \<Rightarrow> string \<Rightarrow> bool \<Rightarrow> time \<Rightarrow> (error + unit) \<times> world" where
  "ApproveApplication w groupID applicantUserID ownerID approve now =
     (case WithTransaction (db w)
             (ApproveApplication_tx groupID applicantUserID ownerID approve now) of
        (Inl e, d) \<Rightarrow> (Inl e, w\<lparr>db := d\<rparr>)
      | (Inr _, d) \<Rightarrow> (Inr (), w\<lparr>db := d, cache_dels := cache_dels w @ [cache_key groupID]\<rparr>))"

section \<open>Candidate query: FindGroupsByTags of the repository\<close>

text \<open>
  The jsonb operator \<open>tags ?| $1\<close>: some string of the argument is an element of the stored
  tag array.
\<close>

definition tags_overlap :: "string list \<Rightarrow> string list \<Rightarrow> bool" where
  "tags_overlap stored tags = list_ex (\<lambda>t. t \<in> set stored) tags"

text \<open>The WHERE clause that \<open>FindGroupsByTags\<close> builds.\<close>

definition candidate :: "string list \<Rightarrow> DiscoverGroupsRequest \<Rightarrow> Group \<Rightarrow> bool" where
  "candidate tags filters g =
     (Status g = ''OPEN'' \<and> CurrentCount g < Capacity g \<and>
      (if length tags > 0 then tags_overlap (Tags g) tags else True) \<and>
      (if flt_JoinType filters \<noteq> [] then JoinType g = flt_JoinType filters else True))"

text \<open>
  \<open>ORDER BY created_at DESC LIMIT $n\<close> with \<open>n\<close> the limit of the filters, or 50 when that is
  zero. SQL leaves the order of rows with equal \<open>created_at\<close> open; the model takes the
  reverse of the stable ascending sort, which is one of the orders allowed. PostgreSQL
  refuses a negative \<open>LIMIT\<close>.
\<close>

definition FindGroupsByTags ::
  "database \<Rightarrow> string list \<Rightarrow> DiscoverGroupsRequest \<Rightarrow> error + Group list" where
  "FindGroupsByTags d tags filters =
     (let limit = (if flt_Limit filters = 0 then 50 else flt_Limit filters)
      in if limit < 0
         then Inl (Wrapped ''query groups'' (ErrStorage ''LIMIT must not be negative''))
         else Inr (take (nat limit)
                     (rev (sort_key CreatedAt (filter (candidate tags filters) (groups d))))))"

section \<open>Matcher: PostgresMatcher\<close>

text \<open>
  A Go \<open>map[string]bool\<close> is a partial map; reading a key that is absent gives \<open>false\<close>.
  The score is a \<open>float64\<close> in the source, the quotient of two slice lengths; the model
  keeps the exact quotient as a rational number.
\<close>

definition map_get :: "(string \<rightharpoonup> bool) \<Rightarrow> string \<Rightarrow> bool" where
  "map_get st item = (case st item of None \<Rightarrow> False | Some b \<Rightarrow> b)"

fun intersect_loop :: "(string \<rightharpoonup> bool) \<Rightarrow> string list \<Rightarrow> string list \<Rightarrow> string list" where
  "intersect_loop st [] result = result"
| "intersect_loop st (item # b) result =
     (if map_get st item then intersect_loop (st(item := None)) b (result @ [item])
      else intersect_loop st b result)"

definition intersect :: "string list \<Rightarrow> string list \<Rightarrow> string list" where
  "intersect a b = intersect_loop (fold (\<lambda>item st. st(item \<mapsto> True)) a Map.empty) b []"

fun union_loop ::
  "string list \<Rightarrow> (string \<rightharpoonup> bool) \<times> string list \<Rightarrow> (string \<rightharpoonup> bool) \<times> string list" where
  "union_loop [] (st, result) = (st, result)"
| "union_loop (item # xs) (st, result) =
     (if \<not> map_get st item then union_loop xs (st(item \<mapsto> True), result @ [item])
      else union_loop xs (st, result))"

definition union_tags :: "string list \<Rightarrow> string list \<Rightarrow> string list" where
  "union_tags a b = snd (union_loop b (union_loop a (Map.empty, [])))"

definition CalculateJaccardScore :: "string list \<Rightarrow> string list \<Rightarrow> rat" where
  "CalculateJaccardScore userTags groupTags =
     (if length userTags = 0 \<and> length groupTags = 0 then 0
      else (let intersection = intersect userTags groupTags;
                un = union_tags userTags groupTags
            in if length un = 0 then 0
               else of_nat (length intersection) / of_nat (length un)))"

text \<open>
  \<open>sortByScore\<close>: the two nested loops over indices. \<open>n\<close> is \<open>len(matches)\<close>; the loop
  conditions are the source's, over the integers (\<open>n - 1\<close> is negative for the empty slice).
  Every index read or written is below \<open>n\<close>.
\<close>

function sortByScore_inner :: "nat \<Rightarrow> nat \<Rightarrow> nat \<Rightarrow> GroupMatch list \<Rightarrow> GroupMatch list" where
  "sortByScore_inner n i j matches =
     (if int j < int n - int i - 1
      then sortByScore_inner n i (j + 1)
             (if SimilarityScore (matches ! j) < SimilarityScore (matches ! (j + 1))
              then matches[j := matches ! (j + 1), j + 1 := matches ! j]
              else matches)
      else matches)"
  by pat_completeness auto
termination
  by (relation "measure (\<lambda>(n, i, j, matches). nat (int n - int i - 1 - int j))") auto

function sortByScore_outer :: "nat \<Rightarrow> nat \<Rightarrow> GroupMatch list \<Rightarrow> GroupMatch list" where
  "sortByScore_outer n i matches =
     (if int i < int n - 1
      then sortByScore_outer n (i + 1) (sortByScore_inner n i 0 matches)
      else matches)"
  by pat_completeness auto
termination
  by (relation "measure (\<lambda>(n, i, matches). nat (int n - 1 - int i))") auto

definition sortByScore :: "GroupMatch list \<Rightarrow> GroupMatch list" where
  "sortByScore matches = sortByScore_outer (length matches) 0 matches"

definition score_match :: "string list \<Rightarrow> Group \<Rightarrow> GroupMatch" where
  "score_match userTags g =
     \<lparr>gm_Group = g, SimilarityScore = CalculateJaccardScore userTags (Tags g)\<rparr>"

definition FindMatches ::
  "database \<Rightarrow> UserProfile \<Rightarrow> DiscoverGroupsRequest \<Rightarrow> error + GroupMatch list" where
  "FindMatches d userProfile filters =
     (case FindGroupsByTags d (up_Tags userProfile) filters of
        Inl e \<Rightarrow> Inl e
      | Inr grps \<Rightarrow> Inr (sortByScore (map (score_match (up_Tags userProfile)) grps)))"

section \<open>Schema invariant\<close>

text \<open>
  What the schema guarantees of every stored state: primary keys are unique, every
  \<open>groups\<close> row passes both CHECK constraints, and every membership row refers to a group.
\<close>

definition db_ok :: "database \<Rightarrow> bool" where
  "db_ok d =
     (distinct (map ID (groups d)) \<and>
      list_all (\<lambda>g. chk_capacity g \<and> chk_count g) (groups d) \<and>
      distinct (map (\<lambda>m. (GroupID m, UserID m)) (group_members d)) \<and>
      list_all (\<lambda>m. group_exists d (GroupID m)) (group_members d))"

section \<open>The specification's description of JoinGroup\<close>

text \<open>
  Steps 2 to 8 of the specification of \<open>JoinGroup\<close>, on the row \<open>g\<close> read under the lock:
  the four failures in their order, otherwise the membership row, the incremented counter,
  the status \<open>CLOSED\<close> when the increment reaches the capacity, and the eviction.
\<close>

definition join_row :: "string \<Rightarrow> Group \<Rightarrow> Group" where
  "join_row gid r =
     (if ID r = gid
      then r\<lparr>CurrentCount := CurrentCount r + 1,
             Status := (if CurrentCount r + 1 = Capacity r then StatusClosed else Status r)\<rparr>
      else r)"

definition JoinGroup_spec :: "world \<Rightarrow> Group \<Rightarrow> string \<Rightarrow> time \<Rightarrow> (error + unit) \<times> world" where
  "JoinGroup_spec w g userID now =
     (if Status g \<noteq> StatusOpen then (Inl ErrGroupNotOpen, w)
      else if JoinType g \<noteq> JoinTypeOpen then (Inl ErrCannotJoinApplicationGroup, w)
      else if IsMember (db w) (ID g) userID then (Inl ErrAlreadyMember, w)
      else if CurrentCount g \<ge> Capacity g then (Inl ErrGroupFull, w)
      else (Inr (),
            w\<lparr>db := \<lparr>groups = map (join_row (ID g)) (groups (db w)),
                      group_members = group_members (db w) @
                        [\<lparr>GroupID = ID g, UserID = userID, Role = RoleMember, JoinedAt = now\<rparr>]\<rparr>,
              cache_dels := cache_dels w @ [cache_key (ID g)]\<rparr>))"

section \<open>Further definitions used by the claims\<close>

text \<open>
  What the rejection of the application at index \<open>i\<close> writes into the row of group \<open>gid\<close>:
  the status \<open>REJECTED\<close> and the decision timestamp of that application, nothing else.
\<close>

definition reject_row :: "string \<Rightarrow> nat \<Rightarrow> time \<Rightarrow> Group \<Rightarrow> Group" where
  "reject_row gid i now r =
     (if ID r = gid
      then r\<lparr>Applications := (Applications r)
               [i := (Applications r ! i)\<lparr>app_Status := ApplicationStatusRejected,
                                          DecidedAt := Some now\<rparr>]\<rparr>
      else r)"

text \<open>
  Go's \<open>errors.Is\<close>: the error is the target or wraps it. \<open>result_Is\<close> applies it to the
  result of an operation; a nil error is no error.
\<close>

fun errors_Is :: "error \<Rightarrow> error \<Rightarrow> bool" where
  "errors_Is (Wrapped msg e) target = (Wrapped msg e = target \<or> errors_Is e target)"
| "errors_Is e target = (e = target)"

definition result_Is :: "error + 'a \<Rightarrow> error \<Rightarrow> bool" where
  "result_Is r target = (case r of Inl e \<Rightarrow> errors_Is e target | Inr _ \<Rightarrow> False)"

text \<open>Repeated calls of \<open>JoinGroup\<close> with one pair of ids: the results in order and the last state.\<close>

fun JoinGroup_many :: "world \<Rightarrow> string \<Rightarrow> string \<Rightarrow> time list \<Rightarrow> (error + unit) list \<times> world" where
  "JoinGroup_many w groupID userID [] = ([], w)"
| "JoinGroup_many w groupID userID (t # ts) =
     (case JoinGroup w groupID userID t of
        (r, w1) \<Rightarrow> (case JoinGroup_many w1 groupID userID ts of (rs, w2) \<Rightarrow> (r # rs, w2)))"

text \<open>
  A sequence of calls of the mutating operations, each in its own transaction, one after the
  other; the result of a call is dropped, its state is passed on.
\<close>

datatype operation =
    OpCreateGroup string CreateGroupRequest string time
  | OpJoinGroup string string time
  | OpApplyToGroup string string string time
  | OpApproveApplication string string string bool time

fun apply_operation :: "world \<Rightarrow> operation \<Rightarrow> world" where
  "apply_operation w (OpCreateGroup ownerID req newID now) = snd (CreateGroup w ownerID req newID now)"
| "apply_operation w (OpJoinGroup groupID userID now) = snd (JoinGroup w groupID userID now)"
| "apply_operation w (OpApplyToGroup groupID userID pitch now) =
     snd (ApplyToGroup w groupID userID pitch now)"
| "apply_operation w (OpApproveApplication groupID applicantUserID ownerID approve now) =
     snd (ApproveApplication w groupID applicantUserID ownerID approve now)"

definition run :: "world \<Rightarrow> operation list \<Rightarrow> world" where
  "run w ops = foldl apply_operation w ops"

definition capacity_inv :: "Group \<Rightarrow> bool" where
  "capacity_inv g =
     (CurrentCount g \<le> Capacity g \<and> (Status g = StatusClosed) = (CurrentCount g = Capacity g))"

definition group_inv :: "string \<Rightarrow> database \<Rightarrow> bool" where
  "group_inv gid d =
     (case GetGroupWithLock d gid of Inl _ \<Rightarrow> False | Inr g \<Rightarrow> capacity_inv g)"

text \<open>
  One iteration of the inner loop of \<open>sortByScore\<close>, and the invariant of its outer loop:
  after \<open>i\<close> passes the last \<open>i\<close> places are in descending order of score and hold no
  score above one of an earlier place.
\<close>

definition pass_step :: "nat \<Rightarrow> GroupMatch list \<Rightarrow> GroupMatch list" where
  "pass_step j matches =
     (if SimilarityScore (matches ! j) < SimilarityScore (matches ! (j + 1))
      then matches[j := matches ! (j + 1), j + 1 := matches ! j]
      else matches)"

definition suffix_inv :: "nat \<Rightarrow> nat \<Rightarrow> GroupMatch list \<Rightarrow> bool" where
  "suffix_inv n i ms =
     ((\<forall>a b. n \<le> a + i \<and> a \<le> b \<and> b < n \<longrightarrow> SimilarityScore (ms ! b) \<le> SimilarityScore (ms ! a)) \<and>
      (\<forall>a b. a + i < n \<and> n \<le> b + i \<and> b < n \<longrightarrow> SimilarityScore (ms ! b) \<le> SimilarityScore (ms ! a)))"

section \<open>Example states\<close>

definition empty_world :: world where
  "empty_world = \<lparr>db = \<lparr>groups = [], group_members = []\<rparr>, cache_dels = []\<rparr>"

definition ex_req :: "int \<Rightarrow> string \<Rightarrow> CreateGroupRequest" where
  "ex_req c jt = \<lparr>req_Title = ''Study group'', req_Description = ''A weekly study group'',
     req_Proposal = ''Read one paper every week'', req_Tags = [''go'', ''rust''],
     req_Capacity = c, req_JoinType = jt\<rparr>"

text \<open>User \<open>u1\<close> has created the open group \<open>g1\<close> of capacity 2.\<close>

definition w_open2 :: world where
  "w_open2 = snd (CreateGroup empty_world ''u1'' (ex_req 2 JoinTypeOpen) ''g1'' 1)"

definition g_open2 :: Group where
  "g_open2 = \<lparr>ID = ''g1'', OwnerID = ''u1'', Title = ''Study group'',
     Description = ''A weekly study group'', Proposal = ''Read one paper every week'',
     Tags = [''go'', ''rust''], Capacity = 2, CurrentCount = 1, JoinType = JoinTypeOpen,
     Status = StatusOpen, Applications = [], CreatedAt = 1, UpdatedAt = 1\<rparr>"

text \<open>
  User \<open>u1\<close> has created the application group \<open>g2\<close> of capacity 2; \<open>u2\<close> and \<open>u3\<close> have
  applied; the application of \<open>u2\<close> has been approved, which filled the group.
\<close>

definition w_app2 :: world where
  "w_app2 =
     (let w1 = snd (CreateGroup empty_world ''u1'' (ex_req 2 JoinTypeApplication) ''g2'' 1);
          w2 = snd (ApplyToGroup w1 ''g2'' ''u2'' ''I know Go'' 2)
      in snd (ApplyToGroup w2 ''g2'' ''u3'' ''I know Rust'' 3))"

definition w_full :: world where
  "w_full = snd (ApproveApplication w_app2 ''g2'' ''u2'' ''u1'' True 4)"

definition g_full :: Group where
  "g_full = \<lparr>ID = ''g2'', OwnerID = ''u1'', Title = ''Study group'',
     Description = ''A weekly study group'', Proposal = ''Read one paper every week'',
     Tags = [''go'', ''rust''], Capacity = 2, CurrentCount = 2, JoinType = JoinTypeApplication,
     Status = StatusClosed,
     Applications =
       [\<lparr>app_UserID = ''u2'', Pitch = ''I know Go'', app_Status = ApplicationStatusApproved,
         AppliedAt = 2, DecidedAt = Some 4\<rparr>,
        \<lparr>app_UserID = ''u3'', Pitch = ''I know Rust'', app_Status = ApplicationStatusPending,
         AppliedAt = 3, DecidedAt = None\<rparr>],
     CreatedAt = 1, UpdatedAt = 1\<rparr>"

text \<open>The open group \<open>g1\<close> after \<open>u2\<close> has joined it, which filled it.\<close>

definition w_closed2 :: world where
  "w_closed2 = snd (JoinGroup w_open2 ''g1'' ''u2'' 2)"

definition g_closed2 :: Group where
  "g_closed2 = g_open2\<lparr>CurrentCount := 2, Status := StatusClosed\<rparr>"

text \<open>A stored state whose only group is COMPLETED and holds a PENDING application.\<close>

definition g_completed :: Group where
  "g_completed = \<lparr>ID = ''g3'', OwnerID = ''u1'', Title = ''Study group'',
     Description = ''A weekly study group'', Proposal = ''Read one paper every week'',
     Tags = [''go''], Capacity = 3, CurrentCount = 1, JoinType = JoinTypeApplication,
     Status = StatusCompleted,
     Applications =
       [\<lparr>app_UserID = ''u4'', Pitch = ''I know Go'', app_Status = ApplicationStatusPending,
         AppliedAt = 2, DecidedAt = None\<rparr>],
     CreatedAt = 1, UpdatedAt = 1\<rparr>"

definition w_completed :: world where
  "w_completed =
     \<lparr>db = \<lparr>groups = [g_completed],
             group_members = [\<lparr>GroupID = ''g3'', UserID = ''u1'', Role = RoleLeader, JoinedAt = 1\<rparr>]\<rparr>,
      cache_dels = []\<rparr>"

text \<open>Four open groups with different tags, and a profile to match them with.\<close>

definition ex_filters :: "int \<Rightarrow> DiscoverGroupsRequest" where
  "ex_filters l = \<lparr>flt_Tags = [], flt_SkillLevel = [], flt_JoinType = [], flt_Limit = l\<rparr>"

definition g_tags :: "string \<Rightarrow> string list \<Rightarrow> time \<Rightarrow> Group" where
  "g_tags gid tags created = g_open2\<lparr>ID := gid, Tags := tags, Capacity := 5, CreatedAt := created\<rparr>"

definition d_match :: database where
  "d_match =
     \<lparr>groups = [g_tags ''gB'' [''go''] 1, g_tags ''gA'' [''go'', ''rust''] 2,
                g_tags ''gD'' [''rust''] 3, g_tags ''gC'' [''go'', ''c''] 4],
      group_members = []\<rparr>"

definition up_match :: UserProfile where
  "up_match = \<lparr>up_UserID = ''u9'', up_Tags = [''go'', ''rust''], up_SkillLevel = ''BEGINNER'',
                up_Availability = [''WEEKENDS''], up_Intent = ''CASUAL''\<rparr>"

text \<open>
  The state after user \<open>u1\<close> has created \<open>k\<close> open groups of capacity 5, the \<open>i\<close>-th at
  time \<open>i\<close> with an id of \<open>i + 1\<close> letters.
\<close>

definition group_id :: "nat \<Rightarrow> string" where
  "group_id i = replicate (Suc i) CHR ''g''"

definition create_many :: "nat \<Rightarrow> operation list" where
  "create_many k = map (\<lambda>i. OpCreateGroup ''u1'' (ex_req 5 JoinTypeOpen) (group_id i) i) [0..<k]"

definition many_groups :: "nat \<Rightarrow> database" where
  "many_groups k =
     \<lparr>groups = map (\<lambda>i. g_open2\<lparr>ID := group_id i, Capacity := 5, CreatedAt := i, UpdatedAt := i\<rparr>)
                 [0..<k],
      group_members = map (\<lambda>i. \<lparr>GroupID = group_id i, UserID = ''u1'', Role = RoleLeader,
                                  JoinedAt = i\<rparr>) [0..<k]\<rparr>"

section \<open>Properties of the repository\<close>

lemma find_ID_iff: "find (\<lambda>r. ID r = gid) rows = Some g \<Longrightarrow> ID g = gid \<and> g \<in> set rows"
  by (induction rows) (auto split: if_splits)

lemma group_exists_find: "group_exists d gid = (find (\<lambda>r. ID r = gid) (groups d) \<noteq> None)"
  by (auto simp: group_exists_def find_None_iff list_ex_iff)

lemma group_exists_iff: "group_exists d gid = (gid \<in> set (map ID (groups d)))"
  by (auto simp: group_exists_def list_ex_iff)

lemma GetGroupWithLock_InrD:
  "GetGroupWithLock d gid = Inr g \<Longrightarrow> ID g = gid \<and> g \<in> set (groups d) \<and> group_exists d gid"
  by (auto simp: GetGroupWithLock_def group_exists_find dest: find_ID_iff split: option.splits)

lemma ID_update_row [simp]: "ID (update_row g r) = ID r"
  by (simp add: update_row_def)

lemma map_ID_update_row [simp]: "map ID (map (update_row g) rows) = map ID rows"
  by simp

lemma find_map_update_row:
  "find (\<lambda>r. ID r = gid) (map (update_row g) rows) =
     map_option (update_row g) (find (\<lambda>r. ID r = gid) rows)"
  by (induction rows) auto

lemma distinct_ID_eq:
  "distinct (map ID rows) \<Longrightarrow> g \<in> set rows \<Longrightarrow> r \<in> set rows \<Longrightarrow> ID r = ID g \<Longrightarrow> r = g"
  by (meson distinct_map inj_onD)

lemma db_ok_row:
  "db_ok d \<Longrightarrow> g \<in> set (groups d) \<Longrightarrow> chk_capacity g \<and> chk_count g"
  by (auto simp: db_ok_def list_all_iff)

text \<open>Two functions on rows that agree off the key of \<open>g\<close> and at \<open>g\<close> agree on the table.\<close>

lemma map_rows_cong:
  assumes "distinct (map ID rows)" "g \<in> set rows" "\<And>r. ID r \<noteq> ID g \<Longrightarrow> f r = h r" "f g = h g"
  shows "map f rows = map h rows"
proof (rule map_cong[OF refl])
  fix r assume "r \<in> set rows"
  show "f r = h r"
  proof (cases "ID r = ID g")
    case True
    with assms(1,2) \<open>r \<in> set rows\<close> have "r = g" by (simp add: distinct_ID_eq)
    with assms(4) show ?thesis by simp
  next
    case False
    then show ?thesis by (rule assms(3))
  qed
qed

lemma AddMember_ok:
  "\<not> IsMember d gid uid \<Longrightarrow> group_exists d gid \<Longrightarrow>
     AddMember d \<lparr>GroupID = gid, UserID = uid, Role = r, JoinedAt = t\<rparr> now =
       (Inr (), d\<lparr>group_members := group_members d @
                   [\<lparr>GroupID = gid, UserID = uid, Role = r, JoinedAt = now\<rparr>]\<rparr>)"
  by (simp add: AddMember_def)

lemma UpdateGroup_ok:
  "group_exists d (ID g) \<Longrightarrow> chk_capacity g \<Longrightarrow> chk_count g \<Longrightarrow>
     UpdateGroup d g = (Inr (), d\<lparr>groups := map (update_row g) (groups d)\<rparr>)"
  by (simp add: UpdateGroup_def)

lemma findPending_Some_iff:
  "(\<exists>i. findPending u apps = Some i) =
     list_ex (\<lambda>a. app_UserID a = u \<and> app_Status a = ApplicationStatusPending) apps"
  by (induction apps) auto

lemma update_row_twice: "ID g1 = ID g2 \<Longrightarrow> update_row g2 (update_row g1 r) = update_row g2 r"
  by (simp add: update_row_def)


lemma WithTransaction_InlD:
  "WithTransaction d fn = (Inl e, d') \<Longrightarrow> d' = d \<and> (\<exists>d''. fn d = (Inl e, d''))"
  by (auto simp: WithTransaction_def split: prod.splits sum.splits)

lemma WithTransaction_InrD:
  "WithTransaction d fn = (Inr x, d') \<Longrightarrow> fn d = (Inr x, d')"
  by (auto simp: WithTransaction_def split: prod.splits sum.splits)

lemma AddMember_InrD:
  "AddMember d m now = (Inr x, d') \<Longrightarrow>
     d' = d\<lparr>group_members := group_members d @ [m\<lparr>JoinedAt := now\<rparr>]\<rparr>"
  by (auto simp: AddMember_def split: if_splits)

lemma UpdateGroup_InrD:
  "UpdateGroup d g = (Inr x, d') \<Longrightarrow> d' = d\<lparr>groups := map (update_row g) (groups d)\<rparr>"
  by (auto simp: UpdateGroup_def split: if_splits)

lemma GetGroupWithLock_members [simp]:
  "GetGroupWithLock (d\<lparr>group_members := ms\<rparr>) gid = GetGroupWithLock d gid"
  by (simp add: GetGroupWithLock_def)

section \<open>JoinGroup\<close>

lemma JoinGroup_tx_ok:
  assumes ok: "db_ok d" and g: "GetGroupWithLock d groupID = Inr g"
    and "Status g = StatusOpen" "JoinType g = JoinTypeOpen" "\<not> IsMember d groupID userID"
    and "CurrentCount g < Capacity g"
  shows "JoinGroup_tx groupID userID now d =
           (Inr (), \<lparr>groups = map (join_row groupID) (groups d),
                     group_members = group_members d @
                       [\<lparr>GroupID = groupID, UserID = userID, Role = RoleMember, JoinedAt = now\<rparr>]\<rparr>)"
proof -
  from g have gid: "ID g = groupID" and mem: "g \<in> set (groups d)" and ex: "group_exists d groupID"
    using GetGroupWithLock_InrD by blast+
  from db_ok_row[OF ok mem] have chk: "chk_capacity g" "chk_count g" by simp_all
  from ok have dist: "distinct (map ID (groups d))" by (simp add: db_ok_def)
  define g1 where "g1 = g\<lparr>CurrentCount := CurrentCount g + 1\<rparr>"
  define g2 where "g2 = g1\<lparr>Status := StatusClosed\<rparr>"
  have rows1: "map (update_row g2) (map (update_row g1) (groups d)) = map (join_row groupID) (groups d)"
    if "CurrentCount g + 1 \<ge> Capacity g"
    unfolding map_map comp_def
    by (rule map_rows_cong[OF dist mem])
       (use that gid assms(6) in \<open>auto simp: update_row_def join_row_def g1_def g2_def\<close>)
  have rows2: "map (update_row g1) (groups d) = map (join_row groupID) (groups d)"
    if "\<not> CurrentCount g + 1 \<ge> Capacity g"
    by (rule map_rows_cong[OF dist mem])
       (use that gid in \<open>auto simp: update_row_def join_row_def g1_def\<close>)
  have chk1: "chk_capacity g1" "chk_count g1" "chk_capacity g2" "chk_count g2"
    using chk assms(6) by (simp_all add: g1_def g2_def chk_capacity_def chk_count_def)
  have id1: "ID g1 = groupID" "ID g2 = groupID" by (simp_all add: g1_def g2_def gid)
  let ?m = "\<lparr>GroupID = groupID, UserID = userID, Role = RoleMember, JoinedAt = now\<rparr>"
  let ?d1 = "d\<lparr>group_members := group_members d @ [?m]\<rparr>"
  have add: "AddMember d \<lparr>GroupID = groupID, UserID = userID, Role = RoleMember, JoinedAt = 0\<rparr> now
               = (Inr (), ?d1)"
    using assms(5) ex by (rule AddMember_ok)
  have up1: "UpdateGroup ?d1 g1 = (Inr (), ?d1\<lparr>groups := map (update_row g1) (groups ?d1)\<rparr>)"
    using ex by (intro UpdateGroup_ok) (simp_all add: id1 chk1 group_exists_iff)
  let ?d2 = "?d1\<lparr>groups := map (update_row g1) (groups ?d1)\<rparr>"
  have up2: "UpdateGroup ?d2 g2 = (Inr (), ?d2\<lparr>groups := map (update_row g2) (groups ?d2)\<rparr>)"
    using ex by (intro UpdateGroup_ok) (simp_all add: id1 chk1 group_exists_iff)
  show ?thesis
  proof (cases "CurrentCount g + 1 \<ge> Capacity g")
    case True
    then show ?thesis
      using assms(3-6) g add up1 up2 rows1[OF True]
      by (simp add: JoinGroup_tx_def Let_def g1_def[symmetric] g2_def[symmetric])
         (simp add: g1_def)
  next
    case False
    then show ?thesis
      using assms(3-6) g add up1 rows2[OF False]
      by (simp add: JoinGroup_tx_def Let_def g1_def[symmetric])
         (simp add: g1_def)
  qed
qed

text \<open>
  Claim C2. On a stored state, for the group row \<open>g\<close> that the lock reads, \<open>JoinGroup\<close>
  is the specification's sequence: \<open>GroupNotOpen\<close> if the status is not OPEN, otherwise
  \<open>CannotJoinApplicationGroup\<close> if the join type is not OPEN, otherwise \<open>AlreadyMember\<close> if
  the membership row exists, otherwise \<open>GroupFull\<close> if the count has reached the capacity,
  and otherwise success: a MEMBER row is inserted, the count grows by one, and the status
  becomes CLOSED when the new count is the capacity. A failure leaves the state as it was.
\<close>

theorem JoinGroup_precedence:
  assumes "db_ok (db w)" and "GetGroupWithLock (db w) groupID = Inr g"
  shows "JoinGroup w groupID userID now = JoinGroup_spec w g userID now"
proof -
  from assms(2) have gid: "ID g = groupID" using GetGroupWithLock_InrD by blast
  show ?thesis
  proof (cases "Status g = StatusOpen \<and> JoinType g = JoinTypeOpen \<and> \<not> IsMember (db w) groupID userID
                 \<and> CurrentCount g < Capacity g")
    case True
    with JoinGroup_tx_ok[OF assms, of userID now] gid show ?thesis
      by (simp add: JoinGroup_def JoinGroup_spec_def WithTransaction_def)
  next
    case False
    with assms(2) gid show ?thesis
      by (auto simp: JoinGroup_def JoinGroup_spec_def WithTransaction_def JoinGroup_tx_def)
  qed
qed

theorem JoinGroup_precedence_witness:
  "db_ok (db w_open2) \<and> GetGroupWithLock (db w_open2) ''g1'' = Inr g_open2 \<and>
   JoinGroup w_open2 ''g1'' ''u2'' 2 = JoinGroup_spec w_open2 g_open2 ''u2'' 2 \<and>
   fst (JoinGroup_spec w_open2 g_open2 ''u2'' 2) = Inr ()"
proof -
  have ok: "db_ok (db w_open2)" by code_simp
  have g: "GetGroupWithLock (db w_open2) ''g1'' = Inr g_open2" by code_simp
  have r: "fst (JoinGroup_spec w_open2 g_open2 ''u2'' 2) = Inr ()" by code_simp
  from ok g r JoinGroup_precedence[OF ok g, of "''u2''" 2] show ?thesis by simp
qed

text \<open>What a successful unit of work of \<open>JoinGroup\<close> has read and written.\<close>

lemma JoinGroup_tx_InrD:
  assumes "JoinGroup_tx groupID userID now d = (Inr x, d')"
  shows "\<exists>g. GetGroupWithLock d groupID = Inr g \<and> Status g = StatusOpen \<and>
             JoinType g = JoinTypeOpen \<and> \<not> IsMember d groupID userID \<and>
             CurrentCount g < Capacity g \<and>
             d' = d\<lparr>groups := map (update_row (if CurrentCount g + 1 \<ge> Capacity g
                        then g\<lparr>CurrentCount := CurrentCount g + 1, Status := StatusClosed\<rparr>
                        else g\<lparr>CurrentCount := CurrentCount g + 1\<rparr>))
                      (groups d),
                   group_members := group_members d @
                     [\<lparr>GroupID = groupID, UserID = userID, Role = RoleMember, JoinedAt = now\<rparr>]\<rparr>"
proof -
  from assms obtain g where g: "GetGroupWithLock d groupID = Inr g"
    by (auto simp: JoinGroup_tx_def split: sum.splits)
  from assms g have c: "Status g = StatusOpen" "JoinType g = JoinTypeOpen"
    "\<not> IsMember d groupID userID" "CurrentCount g < Capacity g"
    by (auto simp: JoinGroup_tx_def split: if_splits)
  let ?m = "\<lparr>GroupID = groupID, UserID = userID, Role = RoleMember, JoinedAt = 0\<rparr>"
  define g1 where "g1 = g\<lparr>CurrentCount := CurrentCount g + 1\<rparr>"
  from assms g c obtain d1 where d1: "AddMember d ?m now = (Inr (), d1)"
    by (auto simp: JoinGroup_tx_def split: prod.splits sum.splits)
  from assms g c d1 obtain d2 where d2: "UpdateGroup d1 g1 = (Inr (), d2)"
    by (auto simp: JoinGroup_tx_def Let_def g1_def split: prod.splits sum.splits)
  note e1 = AddMember_InrD[OF d1] and e2 = UpdateGroup_InrD[OF d2]
  show ?thesis
  proof (cases "CurrentCount g + 1 \<ge> Capacity g")
    case True
    with assms g c d1 d2 have d3: "UpdateGroup d2 (g1\<lparr>Status := StatusClosed\<rparr>) = (Inr (), d')"
      by (auto simp: JoinGroup_tx_def Let_def g1_def split: prod.splits sum.splits)
    from UpdateGroup_InrD[OF d3] e1 e2 True g c show ?thesis
      by (simp add: update_row_twice g1_def comp_def)
  next
    case False
    with assms g c d1 d2 have "d' = d2"
      by (auto simp: JoinGroup_tx_def Let_def g1_def split: prod.splits sum.splits)
    with e1 e2 False g c show ?thesis
      by (simp add: g1_def)
  qed
qed

text \<open>
  Claim C6, as amended. After a successful \<open>JoinGroup\<close>, every further call with the same
  group and user fails and leaves the state as it is: with \<open>AlreadyMember\<close> when the group is
  still OPEN, that is when the join left room, and with \<open>GroupNotOpen\<close> when the join
  filled the group and closed it.
\<close>

theorem JoinGroup_repeated:
  assumes "JoinGroup w groupID userID t = (Inr (), w1)"
  shows "\<exists>g1. GetGroupWithLock (db w1) groupID = Inr g1 \<and>
           (Status g1 = StatusOpen) = (CurrentCount g1 < Capacity g1) \<and>
           JoinGroup_many w1 groupID userID ts =
             (replicate (length ts)
                (Inl (if Status g1 = StatusOpen then ErrAlreadyMember else ErrGroupNotOpen)), w1)"
proof -
  from assms obtain d' where tx: "JoinGroup_tx groupID userID t (db w) = (Inr (), d')"
    and w1: "w1 = w\<lparr>db := d', cache_dels := cache_dels w @ [cache_key groupID]\<rparr>"
    by (auto simp: JoinGroup_def split: prod.splits sum.splits dest!: WithTransaction_InrD)
  define upd where "upd g = (if CurrentCount g + 1 \<ge> Capacity g
                        then g\<lparr>CurrentCount := CurrentCount g + 1, Status := StatusClosed\<rparr>
                        else g\<lparr>CurrentCount := CurrentCount g + 1\<rparr>)" for g :: Group
  from JoinGroup_tx_InrD[OF tx] obtain g where g: "GetGroupWithLock (db w) groupID = Inr g"
    and c: "Status g = StatusOpen" "JoinType g = JoinTypeOpen" "CurrentCount g < Capacity g"
    and d': "d' = (db w)\<lparr>groups := map (update_row (upd g)) (groups (db w)),
                   group_members := group_members (db w) @
                     [\<lparr>GroupID = groupID, UserID = userID, Role = RoleMember, JoinedAt = t\<rparr>]\<rparr>"
    unfolding upd_def by blast
  define g1 where "g1 = update_row (upd g) g"
  have get: "GetGroupWithLock (db w1) groupID = Inr g1"
    using g by (simp add: w1 d' GetGroupWithLock_def find_map_update_row g1_def
        split: option.splits)
  have mem: "IsMember (db w1) groupID userID"
    by (simp add: w1 d' IsMember_def)
  have jt: "JoinType g1 = JoinTypeOpen"
    and st: "(Status g1 = StatusOpen) = (CurrentCount g1 < Capacity g1)"
    using c by (auto simp: g1_def upd_def update_row_def)
  have one: "JoinGroup w1 groupID userID t' =
      (Inl (if Status g1 = StatusOpen then ErrAlreadyMember else ErrGroupNotOpen), w1)" for t'
    using get mem jt by (simp add: JoinGroup_def JoinGroup_tx_def WithTransaction_def)
  have "JoinGroup_many w1 groupID userID ts =
             (replicate (length ts)
                (Inl (if Status g1 = StatusOpen then ErrAlreadyMember else ErrGroupNotOpen)), w1)"
    by (induction ts) (simp_all add: one)
  with get st show ?thesis by blast
qed

theorem JoinGroup_repeated_witness:
  "JoinGroup w_open2 ''g1'' ''u2'' 2 = (Inr (), w_closed2) \<and>
   JoinGroup_many w_closed2 ''g1'' ''u2'' [3, 4, 5] =
     ([Inl ErrGroupNotOpen, Inl ErrGroupNotOpen, Inl ErrGroupNotOpen], w_closed2)"
proof -
  have j: "JoinGroup w_open2 ''g1'' ''u2'' 2 = (Inr (), w_closed2)" by code_simp
  have g: "GetGroupWithLock (db w_closed2) ''g1'' = Inr g_closed2" by code_simp
  have st: "Status g_closed2 \<noteq> StatusOpen" by code_simp
  from JoinGroup_repeated[OF j, of "[3, 4, 5]"] g st j show ?thesis
    by (auto simp: numeral_3_eq_3)
qed

text \<open>
  The claim as it is written fails on the group of capacity 2: the first call of \<open>u2\<close>
  succeeds and fills the group, and the second call returns \<open>GroupNotOpen\<close>, not
  \<open>AlreadyMember\<close>, because the status is checked before the membership.
\<close>

theorem JoinGroup_twice_counterexample:
  "fst (JoinGroup w_open2 ''g1'' ''u2'' 2) = Inr () \<and>
   fst (JoinGroup (snd (JoinGroup w_open2 ''g1'' ''u2'' 2)) ''g1'' ''u2'' 3) = Inl ErrGroupNotOpen \<and>
   fst (JoinGroup (snd (JoinGroup w_open2 ''g1'' ''u2'' 2)) ''g1'' ''u2'' 3) \<noteq> Inl ErrAlreadyMember"
  by code_simp

section \<open>ApproveApplication\<close>

text \<open>
  Claim C3. When the owner approves a PENDING application of a group whose count has
  reached its capacity, \<open>ApproveApplication\<close> returns \<open>GroupFull\<close> and the whole state is
  the state before the call: the applications (so the application is still PENDING), the
  count, the membership rows and the cache.
\<close>

theorem ApproveApplication_full_unchanged:
  assumes "GetGroupWithLock (db w) groupID = Inr g"
      and "OwnerID g = ownerID"
      and "list_ex (\<lambda>a. app_UserID a = applicantUserID \<and> app_Status a = ApplicationStatusPending)
             (Applications g)"
      and "CurrentCount g \<ge> Capacity g"
  shows "ApproveApplication w groupID applicantUserID ownerID True now = (Inl ErrGroupFull, w)"
proof -
  from assms(3) obtain i where "findPending applicantUserID (Applications g) = Some i"
    using findPending_Some_iff by blast
  with assms(1,2,4) show ?thesis
    by (simp add: ApproveApplication_def ApproveApplication_tx_def WithTransaction_def Let_def)
qed

theorem ApproveApplication_full_unchanged_witness:
  "GetGroupWithLock (db w_full) ''g2'' = Inr g_full \<and> OwnerID g_full = ''u1'' \<and>
   list_ex (\<lambda>a. app_UserID a = ''u3'' \<and> app_Status a = ApplicationStatusPending)
     (Applications g_full) \<and>
   CurrentCount g_full \<ge> Capacity g_full \<and>
   ApproveApplication w_full ''g2'' ''u3'' ''u1'' True 5 = (Inl ErrGroupFull, w_full)"
proof -
  have g: "GetGroupWithLock (db w_full) ''g2'' = Inr g_full" by code_simp
  have own: "OwnerID g_full = ''u1''" by code_simp
  have pend: "list_ex (\<lambda>a. app_UserID a = ''u3'' \<and> app_Status a = ApplicationStatusPending)
     (Applications g_full)" by code_simp
  have full: "CurrentCount g_full \<ge> Capacity g_full" by code_simp
  from g own pend full ApproveApplication_full_unchanged[OF g own pend full, of 5]
  show ?thesis by simp
qed

text \<open>The rejection path on a stored state: one \<open>UPDATE\<close> that changes one application.\<close>

lemma reject_tx_ok:
  assumes ok: "db_ok d" and g: "GetGroupWithLock d groupID = Inr g"
    and own: "OwnerID g = ownerID"
    and idx: "findPending applicantUserID (Applications g) = Some i"
  shows "ApproveApplication_tx groupID applicantUserID ownerID False now d =
           (Inr (), d\<lparr>groups := map (reject_row groupID i now) (groups d)\<rparr>)"
proof -
  from g have gid: "ID g = groupID" and mem: "g \<in> set (groups d)" and ex: "group_exists d groupID"
    using GetGroupWithLock_InrD by blast+
  from db_ok_row[OF ok mem] have chk: "chk_capacity g" "chk_count g" by simp_all
  from ok have dist: "distinct (map ID (groups d))" by (simp add: db_ok_def)
  define g1 where "g1 = g\<lparr>Applications := decide ApplicationStatusRejected now i (Applications g)\<rparr>"
  have rows: "map (update_row g1) (groups d) = map (reject_row groupID i now) (groups d)"
    by (rule map_rows_cong[OF dist mem])
       (use gid in \<open>auto simp: update_row_def reject_row_def g1_def decide_def\<close>)
  have up: "UpdateGroup d g1 = (Inr (), d\<lparr>groups := map (update_row g1) (groups d)\<rparr>)"
    using ex chk by (intro UpdateGroup_ok) (simp_all add: g1_def gid chk_capacity_def chk_count_def)
  show ?thesis
    using g own idx up rows
    by (simp add: ApproveApplication_tx_def Let_def g1_def[symmetric])
qed

lemma findPending_SomeD:
  "findPending u apps = Some i \<Longrightarrow>
     i < length apps \<and> app_UserID (apps ! i) = u \<and> app_Status (apps ! i) = ApplicationStatusPending"
proof (induction apps arbitrary: i)
  case Nil
  then show ?case by simp
next
  case (Cons a apps)
  show ?case
  proof (cases "app_UserID a = u \<and> app_Status a = ApplicationStatusPending")
    case True
    with Cons.prems show ?thesis by simp
  next
    case False
    with Cons.prems obtain k where k: "findPending u apps = Some k" "i = Suc k"
      by auto
    from Cons.IH[OF k(1)] k(2) show ?thesis by simp
  qed
qed

text \<open>
  Claim C9. When the owner rejects and the first PENDING application of the applicant is
  at index \<open>i\<close>, \<open>ApproveApplication\<close> succeeds; the table of groups changes only in the
  row of the group, and there only in that application, which becomes \<open>REJECTED\<close> with the
  decision timestamp; count, status and capacity of the group, the other applications and
  the membership rows are as before.
\<close>

theorem ApproveApplication_reject_frame:
  assumes "db_ok (db w)" and "GetGroupWithLock (db w) groupID = Inr g"
    and "OwnerID g = ownerID"
    and "findPending applicantUserID (Applications g) = Some i"
  shows "ApproveApplication w groupID applicantUserID ownerID False now =
           (Inr (), w\<lparr>db := (db w)\<lparr>groups := map (reject_row groupID i now) (groups (db w))\<rparr>,
                      cache_dels := cache_dels w @ [cache_key groupID]\<rparr>) \<and>
         GetGroupWithLock
           (db (snd (ApproveApplication w groupID applicantUserID ownerID False now))) groupID =
           Inr (g\<lparr>Applications := (Applications g)
                    [i := (Applications g ! i)\<lparr>app_Status := ApplicationStatusRejected,
                                               DecidedAt := Some now\<rparr>]\<rparr>) \<and>
         group_members (db (snd (ApproveApplication w groupID applicantUserID ownerID False now))) =
           group_members (db w) \<and>
         i < length (Applications g) \<and> app_UserID (Applications g ! i) = applicantUserID"
proof -
  have eq: "ApproveApplication w groupID applicantUserID ownerID False now =
           (Inr (), w\<lparr>db := (db w)\<lparr>groups := map (reject_row groupID i now) (groups (db w))\<rparr>,
                      cache_dels := cache_dels w @ [cache_key groupID]\<rparr>)"
    using reject_tx_ok[OF assms, of now]
    by (simp add: ApproveApplication_def WithTransaction_def)
  from assms(2) have gid: "ID g = groupID" using GetGroupWithLock_InrD by blast
  have find_map: "find (\<lambda>r. ID r = groupID) (map (reject_row groupID i now) rows) =
      map_option (reject_row groupID i now) (find (\<lambda>r. ID r = groupID) rows)" for rows
    by (induction rows) (auto simp: reject_row_def)
  from assms(2) gid
  have get: "GetGroupWithLock
      ((db w)\<lparr>groups := map (reject_row groupID i now) (groups (db w))\<rparr>) groupID =
      Inr (g\<lparr>Applications := (Applications g)
                    [i := (Applications g ! i)\<lparr>app_Status := ApplicationStatusRejected,
                                               DecidedAt := Some now\<rparr>]\<rparr>)"
    by (auto simp: GetGroupWithLock_def find_map reject_row_def split: option.splits)
  from eq get findPending_SomeD[OF assms(4)] show ?thesis by simp
qed

theorem ApproveApplication_reject_frame_witness:
  "db_ok (db w_full) \<and> GetGroupWithLock (db w_full) ''g2'' = Inr g_full \<and>
   OwnerID g_full = ''u1'' \<and> findPending ''u3'' (Applications g_full) = Some 1 \<and>
   ApproveApplication w_full ''g2'' ''u3'' ''u1'' False 5 =
     (Inr (), w_full\<lparr>db := (db w_full)\<lparr>groups := map (reject_row ''g2'' 1 5) (groups (db w_full))\<rparr>,
                      cache_dels := cache_dels w_full @ [cache_key ''g2'']\<rparr>)"
proof -
  have ok: "db_ok (db w_full)" by code_simp
  have g: "GetGroupWithLock (db w_full) ''g2'' = Inr g_full" by code_simp
  have own: "OwnerID g_full = ''u1''" by code_simp
  have idx: "findPending ''u3'' (Applications g_full) = Some 1" by code_simp
  from ok g own idx ApproveApplication_reject_frame[OF ok g own idx, of 5] show ?thesis by simp
qed

lemma GetGroupWithLock_InlD: "GetGroupWithLock d gid = Inl e \<Longrightarrow> e = ErrGroupNotFound"
  by (simp add: GetGroupWithLock_def split: option.splits)

lemma AddMember_InlD:
  "AddMember d m now = (Inl e, d') \<Longrightarrow> \<not> errors_Is e ErrGroupNotOpen"
  by (auto simp: AddMember_def split: if_splits)

lemma UpdateGroup_InlD:
  "UpdateGroup d g = (Inl e, d') \<Longrightarrow> \<not> errors_Is e ErrGroupNotOpen"
  by (auto simp: UpdateGroup_def split: if_splits)

lemma ApproveApplication_tx_errors:
  assumes "ApproveApplication_tx groupID applicantUserID ownerID approve now d = (Inl e, d')"
  shows "\<not> errors_Is e ErrGroupNotOpen"
proof (cases "GetGroupWithLock d groupID")
  case (Inl e')
  with assms show ?thesis
    by (auto simp: ApproveApplication_tx_def dest: GetGroupWithLock_InlD)
next
  case (Inr g)
  show ?thesis
  proof (cases "OwnerID g = ownerID")
    case False
    with assms Inr show ?thesis by (auto simp: ApproveApplication_tx_def)
  next
    case True
    show ?thesis
    proof (cases "findPending applicantUserID (Applications g)")
      case None
      with assms Inr True show ?thesis by (auto simp: ApproveApplication_tx_def)
    next
      case (Some i)
      with assms Inr True show ?thesis
        by (cases approve)
           (auto simp: ApproveApplication_tx_def Let_def split: if_splits prod.splits sum.splits
             dest: AddMember_InlD UpdateGroup_InlD)
    qed
  qed
qed

text \<open>
  Claim C10. \<open>ApproveApplication\<close> does not look at the status of the group: a rejection
  by the owner of a group with a PENDING application of the applicant succeeds whatever the
  status is (no hypothesis constrains \<open>Status g\<close>), and no call of \<open>ApproveApplication\<close>
  returns \<open>GroupNotOpen\<close>, bare or wrapped.
\<close>

theorem ApproveApplication_ignores_status:
  assumes "db_ok (db w)" and "GetGroupWithLock (db w) groupID = Inr g"
    and "OwnerID g = ownerID"
    and "list_ex (\<lambda>a. app_UserID a = applicantUserID \<and> app_Status a = ApplicationStatusPending)
             (Applications g)"
  shows "fst (ApproveApplication w groupID applicantUserID ownerID False now) = Inr () \<and>
         \<not> result_Is (fst (ApproveApplication w' groupID' applicantUserID' ownerID' approve' now'))
             ErrGroupNotOpen"
proof
  from assms(4) obtain i where "findPending applicantUserID (Applications g) = Some i"
    using findPending_Some_iff by blast
  from reject_tx_ok[OF assms(1-3) this, of now]
  show "fst (ApproveApplication w groupID applicantUserID ownerID False now) = Inr ()"
    by (simp add: ApproveApplication_def WithTransaction_def)
next
  show "\<not> result_Is (fst (ApproveApplication w' groupID' applicantUserID' ownerID' approve' now'))
             ErrGroupNotOpen"
    by (auto simp: ApproveApplication_def result_Is_def split: prod.splits sum.splits
        dest!: WithTransaction_InlD ApproveApplication_tx_errors)
qed

theorem ApproveApplication_ignores_status_witness:
  "db_ok (db w_completed) \<and> GetGroupWithLock (db w_completed) ''g3'' = Inr g_completed \<and>
   Status g_completed = StatusCompleted \<and> OwnerID g_completed = ''u1'' \<and>
   list_ex (\<lambda>a. app_UserID a = ''u4'' \<and> app_Status a = ApplicationStatusPending)
     (Applications g_completed) \<and>
   fst (ApproveApplication w_completed ''g3'' ''u4'' ''u1'' False 5) = Inr () \<and>
   \<not> result_Is (fst (ApproveApplication w_full ''g2'' ''u3'' ''u1'' True 5)) ErrGroupNotOpen"
proof -
  have ok: "db_ok (db w_completed)" by code_simp
  have g: "GetGroupWithLock (db w_completed) ''g3'' = Inr g_completed" by code_simp
  have st: "Status g_completed = StatusCompleted" by code_simp
  have own: "OwnerID g_completed = ''u1''" by code_simp
  have pend: "list_ex (\<lambda>a. app_UserID a = ''u4'' \<and> app_Status a = ApplicationStatusPending)
     (Applications g_completed)" by code_simp
  from ok g st own pend
    ApproveApplication_ignores_status[OF ok g own pend, of 5 w_full "''g2''" "''u3''" "''u1''" True 5]
  show ?thesis by simp
qed

section \<open>Cache invalidation\<close>

text \<open>
  Claim C4, as amended. \<open>JoinGroup\<close> and \<open>ApproveApplication\<close> delete the cache entry of the
  group exactly once when they succeed and not at all when they fail; \<open>ApplyToGroup\<close> deletes
  nothing when it fails; \<open>CreateGroup\<close> never deletes a cache entry.
\<close>

theorem cache_invalidation:
  "cache_dels (snd (JoinGroup w groupID userID now)) =
     (case fst (JoinGroup w groupID userID now) of
        Inl _ \<Rightarrow> cache_dels w
      | Inr _ \<Rightarrow> cache_dels w @ [cache_key groupID]) \<and>
   cache_dels (snd (ApproveApplication w groupID applicantUserID ownerID approve now)) =
     (case fst (ApproveApplication w groupID applicantUserID ownerID approve now) of
        Inl _ \<Rightarrow> cache_dels w
      | Inr _ \<Rightarrow> cache_dels w @ [cache_key groupID]) \<and>
   (\<forall>e. fst (ApplyToGroup w groupID userID pitch now) = Inl e \<longrightarrow>
      cache_dels (snd (ApplyToGroup w groupID userID pitch now)) = cache_dels w) \<and>
   cache_dels (snd (CreateGroup w ownerID req newID now)) = cache_dels w"
proof (intro conjI)
  show "cache_dels (snd (JoinGroup w groupID userID now)) =
     (case fst (JoinGroup w groupID userID now) of
        Inl _ \<Rightarrow> cache_dels w
      | Inr _ \<Rightarrow> cache_dels w @ [cache_key groupID])"
    by (simp add: JoinGroup_def split: prod.splits sum.splits)
  show "cache_dels (snd (ApproveApplication w groupID applicantUserID ownerID approve now)) =
     (case fst (ApproveApplication w groupID applicantUserID ownerID approve now) of
        Inl _ \<Rightarrow> cache_dels w
      | Inr _ \<Rightarrow> cache_dels w @ [cache_key groupID])"
    by (simp add: ApproveApplication_def split: prod.splits sum.splits)
  show "\<forall>e. fst (ApplyToGroup w groupID userID pitch now) = Inl e \<longrightarrow>
      cache_dels (snd (ApplyToGroup w groupID userID pitch now)) = cache_dels w"
    by (simp add: ApplyToGroup_def split: prod.splits sum.splits)
  show "cache_dels (snd (CreateGroup w ownerID req newID now)) = cache_dels w"
    by (simp add: CreateGroup_def Let_def split: prod.splits sum.splits)
qed

theorem cache_invalidation_witness:
  "fst (JoinGroup w_open2 ''g1'' ''u2'' 2) = Inr () \<and>
   cache_dels (snd (JoinGroup w_open2 ''g1'' ''u2'' 2)) = cache_dels w_open2 @ [''group:g1''] \<and>
   fst (ApplyToGroup w_open2 ''g1'' ''u2'' ''I know Go'' 2) = Inl ErrCannotApplyToOpenGroup \<and>
   cache_dels (snd (ApplyToGroup w_open2 ''g1'' ''u2'' ''I know Go'' 2)) = cache_dels w_open2"
proof -
  have j: "fst (JoinGroup w_open2 ''g1'' ''u2'' 2) = Inr ()" by code_simp
  have a: "fst (ApplyToGroup w_open2 ''g1'' ''u2'' ''I know Go'' 2) = Inl ErrCannotApplyToOpenGroup"
    by code_simp
  from j a cache_invalidation[of w_open2 "''g1''" "''u2''" 2 _ _ _ "''I know Go''"]
  show ?thesis by (simp add: cache_key_def)
qed

text \<open>
  The claim as it is written fails for \<open>CreateGroup\<close>: the call succeeds and the list of
  cache deletions is still empty.
\<close>

theorem cache_invalidation_counterexample:
  "fst (CreateGroup empty_world ''u1'' (ex_req 2 JoinTypeOpen) ''g1'' 1) = Inr g_open2 \<and>
   cache_dels empty_world = [] \<and>
   cache_dels (snd (CreateGroup empty_world ''u1'' (ex_req 2 JoinTypeOpen) ''g1'' 1)) = []"
  by code_simp

text \<open>A successful \<open>ApplyToGroup\<close> performs no cache deletion either.\<close>

lemma ApplyToGroup_no_eviction:
  "cache_dels (snd (ApplyToGroup w groupID userID pitch now)) = cache_dels w"
  by (simp add: ApplyToGroup_def split: prod.splits sum.splits)

section \<open>Stored states satisfy the schema invariant\<close>

text \<open>
  Every write of the repository keeps \<open>db_ok\<close>, so every state that the operations reach
  from the empty database satisfies it.
\<close>

lemma repo_CreateGroup_db_ok:
  assumes "db_ok d" "repo_CreateGroup d g now = (Inr g', d')"
  shows "db_ok d'"
proof -
  from assms(2) have fresh: "\<not> group_exists d (ID g)" and chk: "chk_capacity g" "chk_count g"
    and d': "d' = d\<lparr>groups := groups d @ [g\<lparr>CreatedAt := now, UpdatedAt := now\<rparr>]\<rparr>"
    by (auto simp: repo_CreateGroup_def Let_def split: if_splits)
  from assms(1) fresh chk show ?thesis
    by (auto simp: db_ok_def d' group_exists_iff chk_capacity_def chk_count_def list_all_iff)
qed

lemma AddMember_db_ok:
  assumes "db_ok d" "AddMember d m now = (Inr x, d')"
  shows "db_ok d'"
proof -
  from assms(2) have fresh: "\<not> IsMember d (GroupID m) (UserID m)" and ex: "group_exists d (GroupID m)"
    and d': "d' = d\<lparr>group_members := group_members d @ [m\<lparr>JoinedAt := now\<rparr>]\<rparr>"
    by (auto simp: AddMember_def split: if_splits)
  from assms(1) fresh ex show ?thesis
    by (auto simp: db_ok_def d' group_exists_iff IsMember_def list_all_iff list_ex_iff)
qed

lemma UpdateGroup_db_ok:
  assumes "db_ok d" "UpdateGroup d g = (Inr x, d')"
  shows "db_ok d'"
proof -
  from assms(2) have chk: "chk_capacity g" "chk_count g"
    and d': "d' = d\<lparr>groups := map (update_row g) (groups d)\<rparr>"
    by (auto simp: UpdateGroup_def split: if_splits)
  have "chk_capacity (update_row g r) \<and> chk_count (update_row g r)"
    if "chk_capacity r \<and> chk_count r" for r
    using that chk by (simp add: update_row_def chk_capacity_def chk_count_def)
  with assms(1) show ?thesis
    by (simp add: db_ok_def d' group_exists_iff list_all_iff comp_def)
qed

lemma JoinGroup_tx_db_ok:
  assumes ok: "db_ok d" and tx: "JoinGroup_tx groupID userID now d = (Inr x, d')"
  shows "db_ok d'"
proof -
  from tx obtain g where g: "GetGroupWithLock d groupID = Inr g"
    by (auto simp: JoinGroup_tx_def split: sum.splits)
  from tx g have c: "Status g = StatusOpen" "JoinType g = JoinTypeOpen"
    "\<not> IsMember d groupID userID" "CurrentCount g < Capacity g"
    by (auto simp: JoinGroup_tx_def split: if_splits)
  let ?m = "\<lparr>GroupID = groupID, UserID = userID, Role = RoleMember, JoinedAt = 0\<rparr>"
  define g1 where "g1 = g\<lparr>CurrentCount := CurrentCount g + 1\<rparr>"
  from tx g c obtain d1 where d1: "AddMember d ?m now = (Inr (), d1)"
    by (auto simp: JoinGroup_tx_def split: prod.splits sum.splits)
  from tx g c d1 obtain d2 where d2: "UpdateGroup d1 g1 = (Inr (), d2)"
    by (auto simp: JoinGroup_tx_def Let_def g1_def split: prod.splits sum.splits)
  have ok2: "db_ok d2" using ok d1 d2 AddMember_db_ok UpdateGroup_db_ok by blast
  show ?thesis
  proof (cases "CurrentCount g + 1 \<ge> Capacity g")
    case True
    with tx g c d1 d2 have "UpdateGroup d2 (g1\<lparr>Status := StatusClosed\<rparr>) = (Inr (), d')"
      by (auto simp: JoinGroup_tx_def Let_def g1_def split: prod.splits sum.splits)
    with ok2 show ?thesis by (rule UpdateGroup_db_ok)
  next
    case False
    with tx g c d1 d2 have "d' = d2"
      by (auto simp: JoinGroup_tx_def Let_def g1_def split: prod.splits sum.splits)
    with ok2 show ?thesis by simp
  qed
qed

lemma ApplyToGroup_tx_db_ok:
  assumes ok: "db_ok d" and tx: "ApplyToGroup_tx groupID userID pitch now d = (Inr x, d')"
  shows "db_ok d'"
proof -
  from tx obtain g where g: "GetGroupWithLock d groupID = Inr g"
    by (auto simp: ApplyToGroup_tx_def split: sum.splits)
  define g1 where "g1 = g\<lparr>Applications := Applications g @
     [\<lparr>app_UserID = userID, Pitch = pitch, app_Status = ApplicationStatusPending,
       AppliedAt = now, DecidedAt = None\<rparr>]\<rparr>"
  from tx g have "UpdateGroup d g1 = (Inr (), d')"
    by (auto simp: ApplyToGroup_tx_def Let_def g1_def split: if_splits prod.splits sum.splits)
  with ok show ?thesis by (rule UpdateGroup_db_ok)
qed

lemma ApproveApplication_tx_db_ok:
  assumes ok: "db_ok d"
    and tx: "ApproveApplication_tx groupID applicantUserID ownerID approve now d = (Inr x, d')"
  shows "db_ok d'"
proof -
  from tx obtain g where g: "GetGroupWithLock d groupID = Inr g"
    by (auto simp: ApproveApplication_tx_def split: sum.splits)
  from tx g obtain i where i: "findPending applicantUserID (Applications g) = Some i"
    and own: "OwnerID g = ownerID"
    by (auto simp: ApproveApplication_tx_def split: if_splits option.splits)
  show ?thesis
  proof (cases approve)
    case False
    define g1 where "g1 = g\<lparr>Applications := decide ApplicationStatusRejected now i (Applications g)\<rparr>"
    from tx g i own False have "UpdateGroup d g1 = (Inr (), d')"
      by (auto simp: ApproveApplication_tx_def Let_def g1_def split: prod.splits sum.splits)
    with ok show ?thesis by (rule UpdateGroup_db_ok)
  next
    case True
    define g1 where "g1 = g\<lparr>Applications := decide ApplicationStatusApproved now i (Applications g)\<rparr>"
    define g3 where "g3 = (if CurrentCount g + 1 \<ge> Capacity g
        then g1\<lparr>CurrentCount := CurrentCount g + 1, Status := StatusClosed\<rparr>
        else g1\<lparr>CurrentCount := CurrentCount g + 1\<rparr>)"
    let ?m = "\<lparr>GroupID = groupID, UserID = applicantUserID, Role = RoleMember, JoinedAt = 0\<rparr>"
    from tx g i own True have c: "CurrentCount g < Capacity g"
      by (auto simp: ApproveApplication_tx_def Let_def split: if_splits)
    from tx g i own True c obtain d1 where d1: "AddMember d ?m now = (Inr (), d1)"
      by (auto simp: ApproveApplication_tx_def Let_def split: prod.splits sum.splits)
    from tx g i own True c d1 have up: "UpdateGroup d1 g3 = (Inr (), d')"
      by (auto simp: ApproveApplication_tx_def Let_def g1_def g3_def split: prod.splits sum.splits)
    from ok d1 have "db_ok d1" by (rule AddMember_db_ok)
    then show ?thesis using up by (rule UpdateGroup_db_ok)
  qed
qed

lemma CreateGroup_tx_db_ok:
  assumes ok: "db_ok d" and tx: "CreateGroup_tx g ownerID now d = (Inr x, d')"
  shows "db_ok d'"
proof -
  from tx obtain g1 d1 where c: "repo_CreateGroup d g now = (Inr g1, d1)"
    by (auto simp: CreateGroup_tx_def split: prod.splits sum.splits)
  with tx have "AddMember d1 \<lparr>GroupID = ID g1, UserID = ownerID, Role = RoleLeader, JoinedAt = 0\<rparr> now
      = (Inr (), d')"
    by (auto simp: CreateGroup_tx_def split: prod.splits sum.splits)
  moreover from ok c have "db_ok d1" by (rule repo_CreateGroup_db_ok)
  ultimately show ?thesis using AddMember_db_ok by blast
qed

lemma apply_operation_db_ok:
  assumes "db_ok (db w)"
  shows "db_ok (db (apply_operation w op))"
proof (cases op)
  case (OpCreateGroup ownerID req newID now)
  with assms show ?thesis
    by (auto simp: CreateGroup_def Let_def split: prod.splits sum.splits
        dest!: WithTransaction_InlD WithTransaction_InrD dest: CreateGroup_tx_db_ok)
next
  case (OpJoinGroup groupID userID now)
  with assms show ?thesis
    by (auto simp: JoinGroup_def split: prod.splits sum.splits
        dest!: WithTransaction_InlD WithTransaction_InrD dest: JoinGroup_tx_db_ok)
next
  case (OpApplyToGroup groupID userID pitch now)
  with assms show ?thesis
    by (auto simp: ApplyToGroup_def split: prod.splits sum.splits
        dest!: WithTransaction_InlD WithTransaction_InrD dest: ApplyToGroup_tx_db_ok)
next
  case (OpApproveApplication groupID applicantUserID ownerID approve now)
  with assms show ?thesis
    by (auto simp: ApproveApplication_def split: prod.splits sum.splits
        dest!: WithTransaction_InlD WithTransaction_InrD dest: ApproveApplication_tx_db_ok)
qed

lemma run_db_ok: "db_ok (db (run empty_world ops))"
proof -
  have "db_ok (db w) \<Longrightarrow> db_ok (db (run w ops))" for w
    unfolding run_def by (induction ops arbitrary: w) (simp_all add: apply_operation_db_ok)
  moreover have "db_ok (db empty_world)" by (simp add: db_ok_def empty_world_def)
  ultimately show ?thesis .
qed


section \<open>The capacity invariant\<close>

lemma group_inv_members [simp]: "group_inv gid (d\<lparr>group_members := ms\<rparr>) = group_inv gid d"
  by (simp add: group_inv_def)











text \<open>A request that passes binding does not ask for capacity 1.\<close>

lemma binding_Capacity_not_1: "binding_Capacity req \<Longrightarrow> req_Capacity req \<noteq> 1"
  by (auto simp: binding_Capacity_def)




section \<open>Jaccard score\<close>

lemma map_get_upd_None: "{x. map_get (st(item := None)) x} = {x. map_get st x} - {item}"
  by (auto simp: map_get_def)

lemma map_get_upd_True: "{x. map_get (st(item \<mapsto> True)) x} = insert item {x. map_get st x}"
  by (auto simp: map_get_def)

lemma intersect_loop_length:
  "length (intersect_loop st b acc) = length acc + card ({x. map_get st x} \<inter> set b)"
proof (induction b arbitrary: st acc)
  case Nil
  then show ?case by simp
next
  case (Cons item b)
  show ?case
  proof (cases "map_get st item")
    case True
    have "{x. map_get st x} \<inter> set (item # b) =
            insert item (({x. map_get st x} - {item}) \<inter> set b)"
      using True by auto
    moreover have "item \<notin> ({x. map_get st x} - {item}) \<inter> set b" by simp
    moreover have "finite (({x. map_get st x} - {item}) \<inter> set b)" by simp
    ultimately have "card ({x. map_get st x} \<inter> set (item # b)) =
        Suc (card (({x. map_get st x} - {item}) \<inter> set b))"
      by (simp add: card_insert_if)
    with True Cons.IH[of "st(item := None)" "acc @ [item]"] show ?thesis
      by (simp add: map_get_upd_None del: fun_upd_apply)
  next
    case False
    then have "{x. map_get st x} \<inter> set (item # b) = {x. map_get st x} \<inter> set b" by auto
    with False Cons.IH[of st acc] show ?thesis by simp
  qed
qed

lemma map_get_empty [simp]: "map_get Map.empty x = False"
  by (simp add: map_get_def)

lemma fold_set_keys:
  "{x. map_get (fold (\<lambda>item st. st(item \<mapsto> True)) a st) x} = set a \<union> {x. map_get st x}"
  by (induction a arbitrary: st) (auto simp: map_get_upd_True)

lemma length_intersect: "length (intersect a b) = card (set a \<inter> set b)"
  by (simp add: intersect_def intersect_loop_length fold_set_keys)

lemma union_loop_inv:
  assumes "{x. map_get st x} = set result" "distinct result"
    and "union_loop xs (st, result) = (st', result')"
  shows "{x. map_get st' x} = set result' \<and> distinct result' \<and> set result' = set result \<union> set xs"
  using assms
proof (induction xs arbitrary: st result)
  case Nil
  then show ?case by simp
next
  case (Cons item xs)
  show ?case
  proof (cases "map_get st item")
    case True
    with Cons.prems(3) have step: "union_loop xs (st, result) = (st', result')" by simp
    from True Cons.prems(1) have "item \<in> set result" by blast
    then have "set result \<union> set (item # xs) = set result \<union> set xs" by auto
    with Cons.IH[OF Cons.prems(1,2) step] show ?thesis by simp
  next
    case False
    with Cons.prems(3) have step: "union_loop xs (st(item \<mapsto> True), result @ [item]) = (st', result')"
      by simp
    from False Cons.prems(1) have notin: "item \<notin> set result" by blast
    have keys: "{x. map_get (st(item \<mapsto> True)) x} = set (result @ [item])"
      using Cons.prems(1) by (simp add: map_get_upd_True del: fun_upd_apply)
    have dist: "distinct (result @ [item])" using Cons.prems(2) notin by simp
    have "set (result @ [item]) \<union> set xs = set result \<union> set (item # xs)" by auto
    with Cons.IH[OF keys dist step] show ?thesis by simp
  qed
qed

lemma union_props: "distinct (union_tags a b) \<and> set (union_tags a b) = set a \<union> set b"
proof -
  obtain st1 r1 where 1: "union_loop a (Map.empty, []) = (st1, r1)" by force
  obtain st2 r2 where 2: "union_loop b (st1, r1) = (st2, r2)" by force
  have i1: "{x. map_get st1 x} = set r1 \<and> distinct r1 \<and> set r1 = set [] \<union> set a"
    by (rule union_loop_inv[OF _ _ 1]) simp_all
  then have "{x. map_get st2 x} = set r2 \<and> distinct r2 \<and> set r2 = set r1 \<union> set b"
    by (intro union_loop_inv[OF _ _ 2]) simp_all
  with i1 show ?thesis by (simp add: union_tags_def 1 2)
qed

lemma length_union: "length (union_tags a b) = card (set a \<union> set b)"
  using union_props[of a b] distinct_card[of "union_tags a b"] by simp


text \<open>The score as the quotient of the two cardinalities.\<close>

lemma score_general:
  "CalculateJaccardScore userTags groupTags =
     (if set userTags \<union> set groupTags = {} then 0
      else of_nat (card (set userTags \<inter> set groupTags)) /
           of_nat (card (set userTags \<union> set groupTags)))"
proof (cases "userTags = [] \<and> groupTags = []")
  case True
  then show ?thesis by (simp add: CalculateJaccardScore_def)
next
  case False
  then have ne: "set userTags \<union> set groupTags \<noteq> {}" by auto
  then have "card (set userTags \<union> set groupTags) \<noteq> 0" by simp
  then have "union_tags userTags groupTags \<noteq> []"
    using length_union[of userTags groupTags] by auto
  with False ne show ?thesis
    by (simp add: CalculateJaccardScore_def Let_def length_intersect length_union)
qed

text \<open>
  Claim C5. \<open>CalculateJaccardScore\<close> is the number of tags common to both inputs divided by
  the number of tags in either, both counted as sets, so that duplicates count once; it is
  0 when both inputs are empty; and it takes the four listed values.
\<close>

theorem CalculateJaccardScore_correct:
  "CalculateJaccardScore userTags groupTags =
     (if set userTags \<union> set groupTags = {} then 0
      else of_nat (card (set userTags \<inter> set groupTags)) /
           of_nat (card (set userTags \<union> set groupTags))) \<and>
   CalculateJaccardScore [] [] = 0 \<and>
   CalculateJaccardScore [''go'', ''rust''] [''go'', ''rust''] = 1 \<and>
   CalculateJaccardScore [''go''] [''rust''] = 0 \<and>
   CalculateJaccardScore [''go'', ''rust''] [''go''] = 1 / 2"
proof (intro conjI)
  show "CalculateJaccardScore userTags groupTags =
     (if set userTags \<union> set groupTags = {} then 0
      else of_nat (card (set userTags \<inter> set groupTags)) /
           of_nat (card (set userTags \<union> set groupTags)))"
    by (rule score_general)
  show "CalculateJaccardScore [] [] = 0" by (simp add: CalculateJaccardScore_def)
  show "CalculateJaccardScore [''go'', ''rust''] [''go'', ''rust''] = 1" by code_simp
  show "CalculateJaccardScore [''go''] [''rust''] = 0" by code_simp
  show "CalculateJaccardScore [''go'', ''rust''] [''go''] = 1 / 2" by code_simp
qed

text \<open>Duplicates in either input change nothing.\<close>

lemma score_duplicates:
  "CalculateJaccardScore (remdups userTags) (remdups groupTags) =
     CalculateJaccardScore userTags groupTags"
  by (simp add: score_general)

lemma score_duplicates_example:
  "CalculateJaccardScore [''go'', ''rust'', ''go''] [''go'', ''go''] = 1 / 2"
  by code_simp

section \<open>sortByScore\<close>

declare sortByScore_inner.simps [simp del]
declare sortByScore_outer.simps [simp del]

lemma inner_unfold:
  "sortByScore_inner n i j ms =
     (if j + i + 1 < n then sortByScore_inner n i (j + 1) (pass_step j ms) else ms)"
  by (subst sortByScore_inner.simps) (auto simp: pass_step_def)

lemma inner_induct [case_names step]:
  assumes "\<And>n i j ms. (j + i + 1 < n \<Longrightarrow> P n i (j + 1) (pass_step j ms)) \<Longrightarrow> P n i j ms"
  shows "P n i j ms"
proof (induction n i j ms rule: sortByScore_inner.induct)
  case (1 n i j matches)
  show ?case
  proof (rule assms)
    assume "j + i + 1 < n"
    then have "int j < int n - int i - 1" by simp
    from 1[OF this] show "P n i (j + 1) (pass_step j matches)"
      by (simp add: pass_step_def)
  qed
qed

lemma length_pass_step [simp]: "length (pass_step j ms) = length ms"
  by (simp add: pass_step_def)

lemma mset_pass_step: "j + 1 < length ms \<Longrightarrow> mset (pass_step j ms) = mset ms"
  by (simp add: pass_step_def mset_swap)

lemma filter_swap_adjacent:
  "Suc j < length ms \<Longrightarrow> \<not> (P (ms ! j) \<and> P (ms ! Suc j)) \<Longrightarrow>
     filter P (ms[j := ms ! Suc j, Suc j := ms ! j]) = filter P ms"
proof (induction ms arbitrary: j)
  case Nil
  then show ?case by simp
next
  case (Cons a ms)
  show ?case
  proof (cases j)
    case 0
    with Cons.prems show ?thesis by (cases ms) auto
  next
    case (Suc k)
    with Cons.prems Cons.IH[of k] show ?thesis by simp
  qed
qed

lemma filter_pass_step:
  "j + 1 < length ms \<Longrightarrow>
     filter (\<lambda>m. SimilarityScore m = v) (pass_step j ms) = filter (\<lambda>m. SimilarityScore m = v) ms"
  by (auto simp: pass_step_def intro!: filter_swap_adjacent)

lemma nth_pass_step_outside: "k < j \<or> j + 1 < k \<Longrightarrow> pass_step j ms ! k = ms ! k"
  by (auto simp: pass_step_def)

lemma inner_length [simp]: "length (sortByScore_inner n i j ms) = length ms"
  by (induction n i j ms rule: inner_induct) (subst inner_unfold, simp)

lemma inner_mset: "length ms = n \<Longrightarrow> mset (sortByScore_inner n i j ms) = mset ms"
proof (induction n i j ms rule: inner_induct)
  case (step j ms)
  then show ?case by (subst inner_unfold) (simp add: mset_pass_step)
qed

lemma inner_stable:
  "length ms = n \<Longrightarrow>
     filter (\<lambda>m. SimilarityScore m = v) (sortByScore_inner n i j ms) =
     filter (\<lambda>m. SimilarityScore m = v) ms"
proof (induction n i j ms rule: inner_induct)
  case (step j ms)
  then show ?case by (subst inner_unfold) (simp add: filter_pass_step)
qed

lemma inner_outside:
  "k < j \<or> n \<le> k + i \<Longrightarrow> sortByScore_inner n i j ms ! k = ms ! k"
proof (induction n i j ms rule: inner_induct)
  case (step j ms)
  then show ?case by (subst inner_unfold) (auto simp: nth_pass_step_outside)
qed


lemma nth_pass_step_prefix:
  assumes "length ms = n" "j + i + 1 < n" "a + i < n"
  shows "\<exists>a'. a' + i < n \<and> pass_step j ms ! a = ms ! a'"
proof (cases "SimilarityScore (ms ! j) < SimilarityScore (ms ! (j + 1))")
  case False
  with assms(3) show ?thesis by (auto simp: pass_step_def)
next
  case True
  with assms(1,2)
  have "pass_step j ms ! a = (if a = j then ms ! (j + 1) else if a = j + 1 then ms ! j else ms ! a)"
    by (auto simp: pass_step_def nth_list_update)
  moreover have "(j + 1) + i < n" "j + i < n" using assms(2) by simp_all
  ultimately show ?thesis using assms(3)
    by (cases "a = j"; cases "a = j + 1") (fastforce+)
qed

lemma inner_prefix:
  "length ms = n \<Longrightarrow> a + i < n \<Longrightarrow>
     \<exists>a'. a' + i < n \<and> sortByScore_inner n i j ms ! a = ms ! a'"
proof (induction n i j ms rule: inner_induct)
  case (step n i j ms)
  show ?case
  proof (cases "j + i + 1 < n")
    case True
    from step.IH[OF True _ step.prems(2)] step.prems(1) obtain a1 where
      a1: "a1 + i < n" "sortByScore_inner n i (j + 1) (pass_step j ms) ! a = pass_step j ms ! a1"
      by auto
    from nth_pass_step_prefix[OF step.prems(1) True a1(1)] obtain a2 where
      "a2 + i < n" "pass_step j ms ! a1 = ms ! a2" by blast
    with a1 True show ?thesis by (subst inner_unfold) auto
  next
    case False
    with step.prems show ?thesis by (subst inner_unfold) auto
  qed
qed

lemma pass_step_min:
  assumes "j + 1 < length ms" "\<forall>k<j. SimilarityScore (ms ! j) \<le> SimilarityScore (ms ! k)"
  shows "\<forall>k<j + 1. SimilarityScore (pass_step j ms ! (j + 1)) \<le> SimilarityScore (pass_step j ms ! k)"
proof (intro allI impI)
  fix k assume k: "k < j + 1"
  show "SimilarityScore (pass_step j ms ! (j + 1)) \<le> SimilarityScore (pass_step j ms ! k)"
  proof (cases "SimilarityScore (ms ! j) < SimilarityScore (ms ! (j + 1))")
    case True
    then have "pass_step j ms ! (j + 1) = ms ! j"
      and "pass_step j ms ! k = (if k = j then ms ! (j + 1) else ms ! k)"
      using assms(1) k by (auto simp: pass_step_def nth_list_update)
    with True assms(2) k show ?thesis by (cases "k = j") auto
  next
    case False
    then have "pass_step j ms = ms" by (simp add: pass_step_def)
    with False assms(2) k show ?thesis
      by (cases "k = j") (auto simp: not_less intro: order_trans)
  qed
qed

lemma inner_min:
  "length ms = n \<Longrightarrow> j + i < n \<Longrightarrow>
   \<forall>k<j. SimilarityScore (ms ! j) \<le> SimilarityScore (ms ! k) \<Longrightarrow>
   k + i < n \<Longrightarrow>
   SimilarityScore (sortByScore_inner n i j ms ! (n - i - 1)) \<le>
     SimilarityScore (sortByScore_inner n i j ms ! k)"
proof (induction n i j ms rule: inner_induct)
  case (step n i j ms)
  show ?case
  proof (cases "j + i + 1 < n")
    case True
    have "\<forall>k<j + 1. SimilarityScore (pass_step j ms ! (j + 1)) \<le> SimilarityScore (pass_step j ms ! k)"
      using True step.prems(1,3) by (intro pass_step_min) auto
    with step.IH[OF True] step.prems True show ?thesis
      by (subst (1 2) inner_unfold) simp
  next
    case False
    with step.prems have j: "j = n - i - 1" by simp
    from step.prems(4) j have "k \<le> j" by simp
    with step.prems(3) have "SimilarityScore (ms ! j) \<le> SimilarityScore (ms ! k)"
      by (cases "k = j") auto
    with False j show ?thesis by (subst (1 2) inner_unfold) simp
  qed
qed


lemma outer_unfold:
  "sortByScore_outer n i ms =
     (if i + 1 < n then sortByScore_outer n (i + 1) (sortByScore_inner n i 0 ms) else ms)"
  by (subst sortByScore_outer.simps) auto

lemma outer_induct [case_names step]:
  assumes "\<And>n i ms. (i + 1 < n \<Longrightarrow> P n (i + 1) (sortByScore_inner n i 0 ms)) \<Longrightarrow> P n i ms"
  shows "P n i ms"
proof (induction n i ms rule: sortByScore_outer.induct)
  case (1 n i matches)
  show ?case
  proof (rule assms)
    assume "i + 1 < n"
    then have "int i < int n - 1" by simp
    from 1[OF this] show "P n (i + 1) (sortByScore_inner n i 0 matches)" .
  qed
qed

lemma outer_length [simp]: "length (sortByScore_outer n i ms) = length ms"
  by (induction n i ms rule: outer_induct) (subst outer_unfold, simp)

lemma outer_mset: "length ms = n \<Longrightarrow> mset (sortByScore_outer n i ms) = mset ms"
proof (induction n i ms rule: outer_induct)
  case (step n i ms)
  then show ?case by (subst outer_unfold) (simp add: inner_mset)
qed

lemma outer_stable:
  "length ms = n \<Longrightarrow>
     filter (\<lambda>m. SimilarityScore m = v) (sortByScore_outer n i ms) =
     filter (\<lambda>m. SimilarityScore m = v) ms"
proof (induction n i ms rule: outer_induct)
  case (step n i ms)
  then show ?case by (subst outer_unfold) (simp add: inner_stable)
qed

lemma suffix_inv_step:
  assumes len: "length ms = n" and i: "i + 1 < n" and inv: "suffix_inv n i ms"
  shows "suffix_inv n (i + 1) (sortByScore_inner n i 0 ms)"
proof -
  let ?ms = "sortByScore_inner n i 0 ms"
  have out: "?ms ! k = ms ! k" if "n \<le> k + i" for k
    using that by (simp add: inner_outside)
  have pre: "\<exists>a'. a' + i < n \<and> ?ms ! a = ms ! a'" if "a + i < n" for a
    using len that by (rule inner_prefix)
  have low: "SimilarityScore (?ms ! (n - i - 1)) \<le> SimilarityScore (?ms ! k)" if "k + i < n" for k
    using len _ _ that by (rule inner_min) (use i in auto)
  have p1: "SimilarityScore (?ms ! b) \<le> SimilarityScore (?ms ! a)"
    if "n \<le> a + (i + 1)" "a \<le> b" "b < n" for a b
  proof (cases "n \<le> a + i")
    case True
    with that inv show ?thesis by (simp add: out suffix_inv_def)
  next
    case False
    show ?thesis
    proof (cases "a = b")
      case True
      then show ?thesis by simp
    next
      case ne: False
      with that False have b: "n \<le> b + i" by simp
      from False obtain a' where a': "a' + i < n" "?ms ! a = ms ! a'" using pre[of a] by auto
      with b that(3) inv show ?thesis by (simp add: out suffix_inv_def)
    qed
  qed
  have p2: "SimilarityScore (?ms ! b) \<le> SimilarityScore (?ms ! a)"
    if "a + (i + 1) < n" "n \<le> b + (i + 1)" "b < n" for a b
  proof (cases "n \<le> b + i")
    case True
    from that(1) obtain a' where a': "a' + i < n" "?ms ! a = ms ! a'" using pre[of a] by auto
    with True that(3) inv show ?thesis by (simp add: out suffix_inv_def)
  next
    case False
    with that(2) have "b = n - i - 1" by simp
    with low[of a] that(1) show ?thesis by simp
  qed
  from p1 p2 show ?thesis unfolding suffix_inv_def by blast
qed

lemma outer_sorted:
  "length ms = n \<Longrightarrow> i < n \<Longrightarrow> suffix_inv n i ms \<Longrightarrow>
     sorted_wrt (\<lambda>x y. SimilarityScore y \<le> SimilarityScore x) (sortByScore_outer n i ms)"
proof (induction n i ms rule: outer_induct)
  case (step n i ms)
  show ?case
  proof (cases "i + 1 < n")
    case True
    from step.IH[OF True _ True suffix_inv_step[OF step.prems(1) True step.prems(3)]] step.prems(1) True
    show ?thesis by (subst outer_unfold) simp
  next
    case False
    with step.prems(2) have i: "i = n - 1" by simp
    have "SimilarityScore (ms ! b) \<le> SimilarityScore (ms ! a)" if "a < b" "b < n" for a b
    proof (cases "a = 0")
      case True
      with that i step.prems(3) show ?thesis by (auto simp: suffix_inv_def)
    next
      case False
      with that i step.prems(3) show ?thesis by (auto simp: suffix_inv_def)
    qed
    with False step.prems(1) show ?thesis
      by (subst outer_unfold) (simp add: sorted_wrt_iff_nth_less)
  qed
qed

lemma sortByScore_props:
  "mset (sortByScore ms) = mset ms \<and>
   sorted_wrt (\<lambda>x y. SimilarityScore y \<le> SimilarityScore x) (sortByScore ms) \<and>
   filter (\<lambda>m. SimilarityScore m = v) (sortByScore ms) = filter (\<lambda>m. SimilarityScore m = v) ms"
proof (cases "ms = []")
  case True
  then show ?thesis by (simp add: sortByScore_def outer_unfold)
next
  case False
  then have "0 < length ms" by simp
  moreover have "suffix_inv (length ms) 0 ms" by (simp add: suffix_inv_def)
  ultimately show ?thesis
    by (simp add: sortByScore_def outer_mset outer_stable outer_sorted)
qed


section \<open>FindMatches\<close>

text \<open>
  Claim C7. When the candidate query returns \<open>grps\<close>, \<open>FindMatches\<close> returns the scored
  candidates as a permutation of them, in descending order of score, and for every score
  the matches with that score are in the order in which the query returned them.
\<close>

theorem FindMatches_sorted_stable:
  assumes "FindGroupsByTags d (up_Tags userProfile) filters = Inr grps"
  shows "\<exists>ms. FindMatches d userProfile filters = Inr ms \<and>
           mset ms = mset (map (score_match (up_Tags userProfile)) grps) \<and>
           sorted_wrt (\<lambda>x y. SimilarityScore x \<ge> SimilarityScore y) ms \<and>
           (\<forall>v. filter (\<lambda>m. SimilarityScore m = v) ms =
                filter (\<lambda>m. SimilarityScore m = v) (map (score_match (up_Tags userProfile)) grps))"
  using assms sortByScore_props[of "map (score_match (up_Tags userProfile)) grps"]
  by (simp add: FindMatches_def)

theorem FindMatches_sorted_stable_witness:
  "FindGroupsByTags d_match (up_Tags up_match) (ex_filters 0) =
     Inr [g_tags ''gC'' [''go'', ''c''] 4, g_tags ''gD'' [''rust''] 3,
          g_tags ''gA'' [''go'', ''rust''] 2, g_tags ''gB'' [''go''] 1] \<and>
   FindMatches d_match up_match (ex_filters 0) =
     Inr [\<lparr>gm_Group = g_tags ''gA'' [''go'', ''rust''] 2, SimilarityScore = 1\<rparr>,
          \<lparr>gm_Group = g_tags ''gD'' [''rust''] 3, SimilarityScore = 1 / 2\<rparr>,
          \<lparr>gm_Group = g_tags ''gB'' [''go''] 1, SimilarityScore = 1 / 2\<rparr>,
          \<lparr>gm_Group = g_tags ''gC'' [''go'', ''c''] 4, SimilarityScore = 1 / 3\<rparr>] \<and>
   sorted_wrt (\<lambda>x y. SimilarityScore x \<ge> SimilarityScore y)
     [\<lparr>gm_Group = g_tags ''gA'' [''go'', ''rust''] 2, SimilarityScore = 1\<rparr>,
      \<lparr>gm_Group = g_tags ''gD'' [''rust''] 3, SimilarityScore = 1 / 2\<rparr>,
      \<lparr>gm_Group = g_tags ''gB'' [''go''] 1, SimilarityScore = 1 / 2\<rparr>,
      \<lparr>gm_Group = g_tags ''gC'' [''go'', ''c''] 4, SimilarityScore = 1 / 3\<rparr>]"
proof -
  have c: "FindGroupsByTags d_match (up_Tags up_match) (ex_filters 0) =
     Inr [g_tags ''gC'' [''go'', ''c''] 4, g_tags ''gD'' [''rust''] 3,
          g_tags ''gA'' [''go'', ''rust''] 2, g_tags ''gB'' [''go''] 1]" by code_simp
  have m: "FindMatches d_match up_match (ex_filters 0) =
     Inr [\<lparr>gm_Group = g_tags ''gA'' [''go'', ''rust''] 2, SimilarityScore = 1\<rparr>,
          \<lparr>gm_Group = g_tags ''gD'' [''rust''] 3, SimilarityScore = 1 / 2\<rparr>,
          \<lparr>gm_Group = g_tags ''gB'' [''go''] 1, SimilarityScore = 1 / 2\<rparr>,
          \<lparr>gm_Group = g_tags ''gC'' [''go'', ''c''] 4, SimilarityScore = 1 / 3\<rparr>]" by code_simp
  from FindMatches_sorted_stable[OF c] m c show ?thesis by auto
qed

section \<open>The limit of the candidate query\<close>

text \<open>
  Claim C8, as amended. A successful candidate query returns at most \<open>L\<close> groups, where \<open>L\<close>
  is 50 when the limit of the filters is zero and that limit otherwise. The query applies no
  cap of its own; the result has at most 100 groups when the filters pass the binding of
  \<open>DiscoverGroupsRequest\<close> (limit unset, or from 1 to 100).
\<close>

theorem FindGroupsByTags_limit:
  assumes "FindGroupsByTags d tags filters = Inr grps"
  shows "int (length grps) \<le> (if flt_Limit filters = 0 then 50 else flt_Limit filters) \<and>
         (binding_Limit filters \<longrightarrow> length grps \<le> 100)"
proof -
  define limit where "limit = (if flt_Limit filters = 0 then 50 else flt_Limit filters)"
  from assms have nonneg: "0 \<le> limit"
    and grps: "grps = take (nat limit) (rev (sort_key CreatedAt (filter (candidate tags filters) (groups d))))"
    by (auto simp: FindGroupsByTags_def Let_def limit_def split: if_splits)
  from grps nonneg have le: "int (length grps) \<le> limit" by simp
  moreover have "limit \<le> 100" if "binding_Limit filters"
    using that by (auto simp: binding_Limit_def limit_def)
  ultimately show ?thesis unfolding limit_def by auto
qed

theorem FindGroupsByTags_limit_witness:
  "FindGroupsByTags d_match [] (ex_filters 2) =
     Inr [g_tags ''gC'' [''go'', ''c''] 4, g_tags ''gD'' [''rust''] 3] \<and>
   binding_Limit (ex_filters 2) \<and>
   int (length [g_tags ''gC'' [''go'', ''c''] 4, g_tags ''gD'' [''rust''] 3]) \<le> 2 \<and>
   length [g_tags ''gC'' [''go'', ''c''] 4, g_tags ''gD'' [''rust''] 3] \<le> 100"
proof -
  have q: "FindGroupsByTags d_match [] (ex_filters 2) =
     Inr [g_tags ''gC'' [''go'', ''c''] 4, g_tags ''gD'' [''rust''] 3]" by code_simp
  have b: "binding_Limit (ex_filters 2)" by code_simp
  from FindGroupsByTags_limit[OF q] q b show ?thesis by simp
qed

text \<open>A negative limit is refused by the database.\<close>

lemma FindGroupsByTags_negative:
  "flt_Limit filters < 0 \<Longrightarrow>
     FindGroupsByTags d tags filters =
       Inl (Wrapped ''query groups'' (ErrStorage ''LIMIT must not be negative''))"
  by (simp add: FindGroupsByTags_def)

text \<open>The state with \<open>k\<close> groups is the state after \<open>k\<close> calls of \<open>CreateGroup\<close>.\<close>

lemma group_id_inj: "group_id i = group_id j \<Longrightarrow> i = j"
  by (metis group_id_def length_replicate nat.inject)

lemma many_groups_fresh: "\<not> group_exists (many_groups k) (group_id k)"
  by (auto simp: group_exists_iff many_groups_def dest: group_id_inj)

lemma many_groups_not_member: "\<not> IsMember (many_groups k) (group_id k) uid"
  by (auto simp: IsMember_def many_groups_def list_ex_iff dest: group_id_inj)

lemma create_one:
  "CreateGroup \<lparr>db = many_groups k, cache_dels = []\<rparr> ''u1'' (ex_req 5 JoinTypeOpen) (group_id k) k =
     (Inr (g_open2\<lparr>ID := group_id k, Capacity := 5, CreatedAt := k, UpdatedAt := k\<rparr>),
      \<lparr>db = many_groups (Suc k), cache_dels = []\<rparr>)"
proof -
  let ?g = "\<lparr>ID = group_id k, OwnerID = ''u1'', Title = req_Title (ex_req 5 JoinTypeOpen),
             Description = req_Description (ex_req 5 JoinTypeOpen),
             Proposal = req_Proposal (ex_req 5 JoinTypeOpen),
             Tags = req_Tags (ex_req 5 JoinTypeOpen), Capacity = 5, CurrentCount = 1,
             JoinType = req_JoinType (ex_req 5 JoinTypeOpen), Status = StatusOpen, Applications = [],
             CreatedAt = 0, UpdatedAt = 0\<rparr>"
  have g: "?g\<lparr>CreatedAt := k, UpdatedAt := k\<rparr> =
           g_open2\<lparr>ID := group_id k, Capacity := 5, CreatedAt := k, UpdatedAt := k\<rparr>"
    by (simp add: ex_req_def g_open2_def)
  have 1: "repo_CreateGroup (many_groups k) ?g k =
      (Inr (g_open2\<lparr>ID := group_id k, Capacity := 5, CreatedAt := k, UpdatedAt := k\<rparr>),
       (many_groups k)\<lparr>groups := groups (many_groups k) @
          [g_open2\<lparr>ID := group_id k, Capacity := 5, CreatedAt := k, UpdatedAt := k\<rparr>]\<rparr>)"
    using many_groups_fresh[of k] g
    by (simp add: repo_CreateGroup_def chk_capacity_def chk_count_def Let_def)
  let ?d1 = "(many_groups k)\<lparr>groups := groups (many_groups k) @
          [g_open2\<lparr>ID := group_id k, Capacity := 5, CreatedAt := k, UpdatedAt := k\<rparr>]\<rparr>"
  have ex: "group_exists ?d1 (group_id k)" by (simp add: group_exists_iff)
  have nm: "\<not> IsMember ?d1 (group_id k) ''u1''"
    using many_groups_not_member[of k "''u1''"] by (simp add: IsMember_def)
  have 2: "AddMember ?d1 \<lparr>GroupID = group_id k, UserID = ''u1'', Role = RoleLeader, JoinedAt = 0\<rparr> k =
      (Inr (), many_groups (Suc k))"
    using AddMember_ok[OF nm ex, of RoleLeader 0 k] by (simp add: many_groups_def)
  show ?thesis
    using 1 2 by (simp add: CreateGroup_def CreateGroup_tx_def WithTransaction_def Let_def ex_req_def)
qed

lemma run_create_many:
  "run empty_world (create_many k) = \<lparr>db = many_groups k, cache_dels = []\<rparr>"
proof (induction k)
  case 0
  then show ?case by (simp add: run_def create_many_def empty_world_def many_groups_def)
next
  case (Suc k)
  then show ?case by (simp add: run_def create_many_def create_one)
qed


lemma many_groups_candidates:
  "filter (candidate [] (ex_filters l)) (groups (many_groups k)) = groups (many_groups k)"
  by (simp add: many_groups_def candidate_def ex_filters_def g_open2_def filter_map comp_def)

lemma FindGroupsByTags_many:
  "0 < l \<Longrightarrow> FindGroupsByTags (many_groups k) [] (ex_filters l) =
     Inr (take (nat l) (rev (sort_key CreatedAt (groups (many_groups k)))))"
  by (simp add: FindGroupsByTags_def Let_def many_groups_candidates) (simp add: ex_filters_def)

text \<open>
  The claim as it is written fails for the limit 101, which the query accepts: on the state
  with 101 open groups it returns 101 groups.
\<close>

theorem FindGroupsByTags_limit_counterexample:
  "db (run empty_world (create_many 101)) = many_groups 101 \<and>
   FindGroupsByTags (many_groups 101) [] (ex_filters 101) =
     Inr (take 101 (rev (sort_key CreatedAt (groups (many_groups 101))))) \<and>
   length (take 101 (rev (sort_key CreatedAt (groups (many_groups 101))))) = 101"
  by (simp add: FindGroupsByTags_many run_create_many) (simp add: many_groups_def)

end
